theory Spec2Isabelle
  imports Main "HOL-Library.Word"
begin

section \<open>Geometric primitives (binpacker.h)\<close>

text \<open>
  \<^verbatim>\<open>unsigned int\<close> is a 32-bit word: \<open>+\<close>, \<open>-\<close> and \<open>*\<close> wrap around, \<open>\<le>\<close> and \<open><\<close>
  compare the unsigned values. A C++ \<^verbatim>\<open>int\<close> is carried as its 32-bit pattern and
  read through \<open>sint\<close> wherever the source compares it as a signed number.
\<close>

type_synonym u32 = "32 word"
type_synonym s32 = "32 word"

text \<open>
  \<^verbatim>\<open>struct Rect { unsigned int left, top, right, bottom; }\<close> with inclusive
  coordinates. The field \<^verbatim>\<open>top\<close> is written \<open>top'\<close>, since \<open>top\<close> is the greatest
  element of a lattice in HOL.
\<close>

record Rect =
  left :: u32
  top' :: u32
  right :: u32
  bottom :: u32

record Area =
  width :: u32
  height :: u32

text \<open>The private members of \<^verbatim>\<open>class Bin\<close>.\<close>

record Bin =
  dimensions :: Area
  emptyRegions :: "Rect list"

definition IsValid :: "Rect \<Rightarrow> bool" where
  "IsValid r \<longleftrightarrow> left r \<le> right r \<and> top' r \<le> bottom r"

text \<open>The value \<^verbatim>\<open>Rect{1, 1, 0, 0}\<close> that \<^verbatim>\<open>TryPackArea\<close> returns on failure.\<close>

definition invalidRect :: Rect where
  "invalidRect = \<lparr>left = 1, top' = 1, right = 0, bottom = 0\<rparr>"

text \<open>A default-constructed Bin: \<^verbatim>\<open>dimensions = {0, 0}\<close> and no regions.\<close>

definition newBin :: Bin where
  "newBin = \<lparr>dimensions = \<lparr>width = 0, height = 0\<rparr>, emptyRegions = []\<rparr>"

definition GetDimensions :: "Bin \<Rightarrow> Area" where
  "GetDimensions b = dimensions b"

definition GetEmptyRegions :: "Bin \<Rightarrow> Rect list" where
  "GetEmptyRegions b = emptyRegions b"

section \<open>The placement scorer (GetClipScore)\<close>

text \<open>
  The two summands of the local \<^verbatim>\<open>score\<close> that test \<^verbatim>\<open>clip.right\<close> and
  \<^verbatim>\<open>clip.bottom\<close> (lines 34 and 35 of binpacker.cpp).
\<close>

definition rightEdgeTerm :: "Rect \<Rightarrow> Rect \<Rightarrow> bool" where
  "rightEdgeTerm region clip \<longleftrightarrow> right clip > right region \<and> right clip \<le> left region"

definition bottomEdgeTerm :: "Rect \<Rightarrow> Rect \<Rightarrow> bool" where
  "bottomEdgeTerm region clip \<longleftrightarrow> bottom clip > bottom region \<and> bottom clip \<le> top' region"

text \<open>
  The local \<^verbatim>\<open>const int score\<close>: 2 plus four booleans minus two booleans. It is an
  \<open>int\<close> here because no overflow is possible in a sum of seven small terms.
\<close>

definition clipFactor :: "Rect \<Rightarrow> Rect \<Rightarrow> int" where
  "clipFactor region clip =
     2
     + of_bool (left clip > left region \<and> left clip \<le> right region)
     + of_bool (top' clip > top' region \<and> top' clip \<le> bottom region)
     + of_bool (rightEdgeTerm region clip)
     + of_bool (bottomEdgeTerm region clip)
     - of_bool (bottom clip = bottom region \<and> top' clip = top' region)
     - of_bool (left clip = left region \<and> right clip = right region)"

text \<open>The test \<^verbatim>\<open>if out of bounds (no areas clipped)\<close> of line 26.\<close>

definition outOfBounds :: "Rect \<Rightarrow> Rect \<Rightarrow> bool" where
  "outOfBounds region clip \<longleftrightarrow>
     left clip > right region \<or> right clip < left region
     \<or> top' clip > bottom region \<or> bottom clip < top' region"

definition intersection :: "Rect \<Rightarrow> Rect \<Rightarrow> Rect" where
  "intersection region clip =
     \<lparr>left = max (left region) (left clip),
      top' = max (top' region) (top' clip),
      right = min (right region) (right clip),
      bottom = min (bottom region) (bottom clip)\<rparr>"

text \<open>
  \<^verbatim>\<open>(r.right - r.left + 1) * (r.bottom - r.top + 1)\<close> in \<^verbatim>\<open>unsigned int\<close>, as both
  \<^verbatim>\<open>intersectionArea\<close> and \<^verbatim>\<open>boundsArea\<close> are computed.
\<close>

definition rectArea :: "Rect \<Rightarrow> u32" where
  "rectArea r = (right r - left r + 1) * (bottom r - top' r + 1)"

text \<open>
  In \<^verbatim>\<open>score*(boundsArea-intersectionArea)\<close> the \<^verbatim>\<open>int\<close> is converted to
  \<^verbatim>\<open>unsigned int\<close>, the product wraps, and the return converts it back to \<^verbatim>\<open>int\<close>.
\<close>

definition GetClipScore :: "Rect \<Rightarrow> Rect \<Rightarrow> s32" where
  "GetClipScore region clip =
     (if outOfBounds region clip then 0
      else
        let score = clipFactor region clip;
            intersectionArea = rectArea (intersection region clip);
            boundsArea = rectArea region
        in word_of_int score * (boundsArea - intersectionArea))"

section \<open>The placement search of TryPackArea\<close>

text \<open>\<^verbatim>\<open>numeric_limits<int>::max()\<close>.\<close>

definition INT_MAX :: s32 where
  "INT_MAX = 2147483647"

text \<open>
  \<^verbatim>\<open>accumulate(emptyRegions.cbegin(), emptyRegions.cend(), 0, ...)\<close>: the sum of the
  clip's scores against every free region, from the left. (Signed overflow of the
  running sum is undefined in C++; the model wraps.)
\<close>

definition clipTotal :: "Rect list \<Rightarrow> Rect \<Rightarrow> s32" where
  "clipTotal regions clip = fold (\<lambda>r score. score + GetClipScore r clip) regions 0"

text \<open>The test on line 67 that skips a region the area cannot fit in.\<close>

definition fits :: "Rect \<Rightarrow> Area \<Rightarrow> bool" where
  "fits r area \<longleftrightarrow>
     right r - left r \<ge> width area - 1 \<and> bottom r - top' r \<ge> height area - 1"

text \<open>The four clips tried in a region, in the order NW, NE, SW, SE.\<close>

definition cornerClips :: "Rect \<Rightarrow> Area \<Rightarrow> Rect list" where
  "cornerClips r area =
     [\<lparr>left = left r, top' = top' r,
       right = left r + width area - 1, bottom = top' r + height area - 1\<rparr>,
      \<lparr>left = right r - width area + 1, top' = top' r,
       right = right r, bottom = top' r + height area - 1\<rparr>,
      \<lparr>left = left r, top' = bottom r - height area + 1,
       right = left r + width area - 1, bottom = bottom r\<rparr>,
      \<lparr>left = right r - width area + 1, top' = bottom r - height area + 1,
       right = right r, bottom = bottom r\<rparr>]"

text \<open>
  One corner test:
  \<^verbatim>\<open>if (score < minScore) { minScore = score; bestRect = clip; if (score==0) break; }\<close>.
  The state is \<open>(minScore, bestRect)\<close>; the flag says that \<^verbatim>\<open>break\<close> was taken.
\<close>

definition tryClip :: "Rect list \<Rightarrow> Rect \<Rightarrow> s32 \<times> Rect \<Rightarrow> (s32 \<times> Rect) \<times> bool" where
  "tryClip regions clip st =
     (let score = clipTotal regions clip in
      if sint score < sint (fst st) then ((score, clip), score = 0) else (st, False))"

fun tryCorners :: "Rect list \<Rightarrow> Rect list \<Rightarrow> s32 \<times> Rect \<Rightarrow> (s32 \<times> Rect) \<times> bool" where
  "tryCorners regions [] st = (st, False)"
| "tryCorners regions (clip # clips) st =
     (case tryClip regions clip st of
        (st', True) \<Rightarrow> (st', True)
      | (st', False) \<Rightarrow> tryCorners regions clips st')"

text \<open>
  The loop \<^verbatim>\<open>for (const Rect & r : emptyRegions)\<close> for one orientation. A
  \<^verbatim>\<open>break\<close> in a corner test leaves this loop.
\<close>

fun scanRegions :: "Rect list \<Rightarrow> Area \<Rightarrow> Rect list \<Rightarrow> s32 \<times> Rect \<Rightarrow> s32 \<times> Rect" where
  "scanRegions regions area [] st = st"
| "scanRegions regions area (r # rs) st =
     (if fits r area then
        (case tryCorners regions (cornerClips r area) st of
           (st', True) \<Rightarrow> st'
         | (st', False) \<Rightarrow> scanRegions regions area rs st')
      else scanRegions regions area rs st)"

definition rotated :: "Area \<Rightarrow> Area" where
  "rotated area = \<lparr>width = height area, height = width area\<rparr>"

text \<open>
  The loop over \<^verbatim>\<open>{area, {area.height, area.width}}\<close> with
  \<^verbatim>\<open>if (minScore == 0) break;\<close> after each orientation.
\<close>

definition findBest :: "Rect list \<Rightarrow> Area \<Rightarrow> s32 \<times> Rect" where
  "findBest regions area =
     (let st = scanRegions regions area regions (INT_MAX, invalidRect) in
      if fst st = 0 then st else scanRegions regions (rotated area) regions st)"

section \<open>The free-region update of TryPackArea\<close>

text \<open>The test on line 99: the region \<open>i\<close> is clipped.\<close>

definition clipsRegion :: "Rect \<Rightarrow> Rect \<Rightarrow> bool" where
  "clipsRegion clip i \<longleftrightarrow>
     left clip \<le> right i \<and> top' clip \<le> bottom i \<and> right clip \<ge> left i \<and> bottom clip \<ge> top' i"

text \<open>The up to four rectangles staged for one clipped region (lines 100 to 107).\<close>

definition remainders :: "Rect \<Rightarrow> Rect \<Rightarrow> Rect list" where
  "remainders clip i =
     (if left clip > left i \<and> left clip \<le> right i
      then [\<lparr>left = left i, top' = top' i, right = left clip - 1, bottom = bottom i\<rparr>] else [])
     @ (if top' clip > top' i \<and> top' clip \<le> bottom i
      then [\<lparr>left = left i, top' = top' i, right = right i, bottom = top' clip - 1\<rparr>] else [])
     @ (if right clip < right i \<and> right clip \<ge> left i
      then [\<lparr>left = right clip + 1, top' = top' i, right = right i, bottom = bottom i\<rparr>] else [])
     @ (if bottom clip < bottom i \<and> bottom clip \<ge> top' i
      then [\<lparr>left = left i, top' = bottom clip + 1, right = right i, bottom = bottom i\<rparr>] else [])"

text \<open>
  The first loop: returns the regions that stay in \<^verbatim>\<open>emptyRegions\<close> and
  \<^verbatim>\<open>emptyRegionsToInsert\<close>, both in the order the loop produces them.
\<close>

fun clipRegions :: "Rect \<Rightarrow> Rect list \<Rightarrow> Rect list \<times> Rect list" where
  "clipRegions clip [] = ([], [])"
| "clipRegions clip (i # rest) =
     (let (kept, staged) = clipRegions clip rest in
      if clipsRegion clip i then (kept, remainders clip i @ staged)
      else (i # kept, staged))"

text \<open>The predicate of the \<^verbatim>\<open>find_if\<close> on lines 118 to 121.\<close>

definition mergeable :: "Rect \<Rightarrow> Rect \<Rightarrow> bool" where
  "mergeable newRegion r \<longleftrightarrow>
     (left newRegion = left r \<and> right newRegion = right r
        \<and> top' newRegion \<le> bottom r \<and> bottom newRegion \<ge> top' r)
     \<or> (top' newRegion = top' r \<and> bottom newRegion = bottom r
        \<and> left newRegion \<le> right r \<and> right newRegion \<ge> left r)"

definition mergeRects :: "Rect \<Rightarrow> Rect \<Rightarrow> Rect" where
  "mergeRects i newRegion =
     \<lparr>left = min (left i) (left newRegion),
      top' = min (top' i) (top' newRegion),
      right = max (right i) (right newRegion),
      bottom = max (bottom i) (bottom newRegion)\<rparr>"

text \<open>The sort key of line 133, \<^verbatim>\<open>a.left*a.top\<close> in \<^verbatim>\<open>unsigned int\<close>.\<close>

definition originKey :: "Rect \<Rightarrow> u32" where
  "originKey a = left a * top' a"

text \<open>
  \<^verbatim>\<open>std::upper_bound\<close> with the comparator of line 133, as the binary search that
  libstdc++ and libc++ implement: \<open>first\<close> and \<open>len\<close> delimit the part of \<open>xs\<close> still
  searched, and the result is an index into \<open>xs\<close>. On a list ordered by the key this
  is the position after the last element whose key is not greater than the value's.
\<close>

function upper_bound :: "Rect list \<Rightarrow> nat \<Rightarrow> nat \<Rightarrow> Rect \<Rightarrow> nat" where
  "upper_bound xs first len val =
     (if len = 0 then first
      else
        let half = len div 2; middle = first + half in
        if originKey val < originKey (xs ! middle) then upper_bound xs first half val
        else upper_bound xs (middle + 1) (len - half - 1) val)"
  by pat_completeness auto
termination
  by (relation "measure (\<lambda>(xs, first, len, val). len)") auto

declare upper_bound.simps [simp del]

text \<open>\<^verbatim>\<open>emptyRegions.emplace(upper_bound(...), newRegion)\<close>.\<close>

definition emplaceRegion :: "Rect list \<Rightarrow> Rect \<Rightarrow> Rect list" where
  "emplaceRegion regions newRegion =
     (let k = upper_bound regions 0 (length regions) newRegion in
      take k regions @ newRegion # drop k regions)"

text \<open>
  The body of the second loop for one staged region: \<^verbatim>\<open>find_if\<close> returns the first
  mergeable region, which \<^verbatim>\<open>erase\<close> removes (the first mergeable region is also the
  first element equal to it, so \<open>remove1\<close> removes that very element).
\<close>

definition insertRegion :: "Rect list \<Rightarrow> Rect \<Rightarrow> Rect list" where
  "insertRegion regions newRegion =
     (case find (mergeable newRegion) regions of
        Some i \<Rightarrow> emplaceRegion (remove1 i regions) (mergeRects i newRegion)
      | None \<Rightarrow> emplaceRegion regions newRegion)"

definition applyClip :: "Rect \<Rightarrow> Rect list \<Rightarrow> Rect list" where
  "applyClip clip regions =
     (let (kept, staged) = clipRegions clip regions in foldl insertRegion kept staged)"

text \<open>\<^verbatim>\<open>Rect Bin::TryPackArea(Area area)\<close>: the returned Rect and the Bin afterwards.\<close>

definition TryPackArea :: "Bin \<Rightarrow> Area \<Rightarrow> Rect \<times> Bin" where
  "TryPackArea b area =
     (if width area > 0 \<and> height area > 0
         \<and> width area \<le> width (dimensions b) \<and> height area \<le> height (dimensions b)
      then
        let bestRect = snd (findBest (emptyRegions b) area) in
        if IsValid bestRect
        then (bestRect, b\<lparr>emptyRegions := applyClip bestRect (emptyRegions b)\<rparr>)
        else (invalidRect, b)
      else (invalidRect, b))"

section \<open>ExtendDimensions\<close>

text \<open>
  \<^verbatim>\<open>find_if\<close> followed by an update of the element found: the list with the first
  element that satisfies \<open>P\<close> replaced, or \<open>None\<close> when \<^verbatim>\<open>find_if\<close> returns the end.
\<close>

fun updateFirst :: "(Rect \<Rightarrow> bool) \<Rightarrow> (Rect \<Rightarrow> Rect) \<Rightarrow> Rect list \<Rightarrow> Rect list option" where
  "updateFirst P f [] = None"
| "updateFirst P f (r # rs) =
     (if P r then Some (f r # rs) else map_option ((#) r) (updateFirst P f rs))"

text \<open>The block of lines 148 to 161.\<close>

definition extendWidth :: "u32 \<Rightarrow> u32 \<Rightarrow> u32 \<Rightarrow> u32 \<Rightarrow> Rect list \<Rightarrow> Rect list" where
  "extendWidth dimWidth extWidth rightEdge bottomEdge regions =
     (case updateFirst (\<lambda>r. right r = rightEdge \<and> bottom r - top' r = bottomEdge)
             (\<lambda>r. r\<lparr>right := right r + extWidth\<rparr>) regions of
        Some regions' \<Rightarrow> regions'
      | None \<Rightarrow>
          map (\<lambda>r. if right r = rightEdge then r\<lparr>right := right r + extWidth\<rparr> else r) regions
          @ [\<lparr>left = dimWidth, top' = 0, right = dimWidth + extWidth - 1, bottom = bottomEdge\<rparr>])"

text \<open>The block of lines 165 to 176.\<close>

definition extendHeight :: "u32 \<Rightarrow> u32 \<Rightarrow> u32 \<Rightarrow> u32 \<Rightarrow> Rect list \<Rightarrow> Rect list" where
  "extendHeight dimHeight extHeight rightEdge bottomEdge regions =
     (case updateFirst (\<lambda>r. bottom r = bottomEdge \<and> right r - left r = rightEdge)
             (\<lambda>r. r\<lparr>bottom := bottom r + extHeight\<rparr>) regions of
        Some regions' \<Rightarrow> regions'
      | None \<Rightarrow>
          map (\<lambda>r. if bottom r = bottomEdge then r\<lparr>bottom := bottom r + extHeight\<rparr> else r) regions
          @ [\<lparr>left = 0, top' = dimHeight, right = rightEdge, bottom = dimHeight + extHeight - 1\<rparr>])"

definition ExtendDimensions :: "Bin \<Rightarrow> Area \<Rightarrow> Bin" where
  "ExtendDimensions b extension =
     (let dimWidth = width (dimensions b);
          dimHeight = height (dimensions b);
          rightEdge = (if dimWidth > 0 then dimWidth - 1 else 0);
          bottomEdge = (if dimHeight > 0 then dimHeight - 1 else 0);
          regions1 =
            (if width extension > 0 \<and> dimHeight > 0
             then extendWidth dimWidth (width extension) rightEdge bottomEdge (emptyRegions b)
             else emptyRegions b);
          dimWidth' = dimWidth + width extension;
          rightEdge' = rightEdge + width extension;
          regions2 =
            (if height extension > 0 \<and> dimWidth' > 0
             then extendHeight dimHeight (height extension) rightEdge' bottomEdge regions1
             else regions1)
      in \<lparr>dimensions = \<lparr>width = dimWidth', height = dimHeight + height extension\<rparr>,
          emptyRegions = regions2\<rparr>)"

section \<open>Sequences of calls\<close>

datatype call = Extend Area | Pack Area

text \<open>
  A client's view of a run: the Bin, and the valid Rects that \<^verbatim>\<open>TryPackArea\<close> has
  returned so far (the Bin itself keeps no record of them).
\<close>

fun doCall :: "Bin \<times> Rect list \<Rightarrow> call \<Rightarrow> Bin \<times> Rect list" where
  "doCall (b, placed) (Extend extension) = (ExtendDimensions b extension, placed)"
| "doCall (b, placed) (Pack area) =
     (let (r, b') = TryPackArea b area in (b', if IsValid r then placed @ [r] else placed))"

definition runCalls :: "call list \<Rightarrow> Bin \<times> Rect list" where
  "runCalls calls = foldl doCall (newBin, []) calls"

section \<open>Notions the specification is stated in\<close>

text \<open>The cells (unit squares, by their coordinates) that a Rect covers.\<close>

definition covers :: "Rect \<Rightarrow> u32 \<times> u32 \<Rightarrow> bool" where
  "covers r p \<longleftrightarrow>
     left r \<le> fst p \<and> fst p \<le> right r \<and> top' r \<le> snd p \<and> snd p \<le> bottom r"

definition cells :: "Rect \<Rightarrow> (u32 \<times> u32) set" where
  "cells r = {p. covers r p}"

definition regionCells :: "Rect list \<Rightarrow> (u32 \<times> u32) set" where
  "regionCells rs = (\<Union>r \<in> set rs. cells r)"

text \<open>Two Rects overlap when they share a cell (lemma \<open>overlaps_iff_common_cell\<close>).\<close>

definition overlaps :: "Rect \<Rightarrow> Rect \<Rightarrow> bool" where
  "overlaps a b \<longleftrightarrow>
     max (left a) (left b) \<le> min (right a) (right b)
     \<and> max (top' a) (top' b) \<le> min (bottom a) (bottom b)"

fun pairwiseDisjoint :: "Rect list \<Rightarrow> bool" where
  "pairwiseDisjoint [] = True"
| "pairwiseDisjoint (r # rs) = (list_all (\<lambda>s. \<not> overlaps r s) rs \<and> pairwiseDisjoint rs)"

text \<open>
  The area of a Rect as the specification defines it: width \<open>right - left + 1\<close> times
  height \<open>bottom - top + 1\<close>, as a natural number.
\<close>

definition areaOf :: "Rect \<Rightarrow> nat" where
  "areaOf r = (unat (right r) - unat (left r) + 1) * (unat (bottom r) - unat (top' r) + 1)"

text \<open>A region inside the bounding rectangle \<open>[0, width) \<times> [0, height)\<close>.\<close>

definition insideBin :: "Area \<Rightarrow> Rect \<Rightarrow> bool" where
  "insideBin d r \<longleftrightarrow> right r < width d \<and> bottom r < height d"

text \<open>
  The usual test that two Rects meet: their spans meet on both axes. For valid Rects
  this is sharing a cell (lemma \<open>intersects_iff_common_cell\<close>).
\<close>

definition intersects :: "Rect \<Rightarrow> Rect \<Rightarrow> bool" where
  "intersects region clip \<longleftrightarrow>
     left clip \<le> right region \<and> left region \<le> right clip
     \<and> top' clip \<le> bottom region \<and> top' region \<le> bottom clip"

text \<open>
  The score as section 4.2 of the specification words it, over the integers: the
  edge terms, the alignment terms, and the areas as numbers of cells.
\<close>

definition specEdgeTerms :: "Rect \<Rightarrow> Rect \<Rightarrow> int" where
  "specEdgeTerms region clip =
     of_bool (left region < left clip \<and> left clip \<le> right region)
     + of_bool (top' region < top' clip \<and> top' clip \<le> bottom region)
     + of_bool (right clip > right region \<and> right clip \<le> left region)
     + of_bool (bottom clip > bottom region \<and> bottom clip \<le> top' region)"

definition specAlignmentTerms :: "Rect \<Rightarrow> Rect \<Rightarrow> int" where
  "specAlignmentTerms region clip =
     of_bool (top' clip = top' region \<and> bottom clip = bottom region)
     + of_bool (left clip = left region \<and> right clip = right region)"

definition specScore :: "Rect \<Rightarrow> Rect \<Rightarrow> int" where
  "specScore region clip =
     (if cells region \<inter> cells clip = {} then 0
      else (2 + specEdgeTerms region clip - specAlignmentTerms region clip)
           * (int (card (cells region)) - int (card (cells region \<inter> cells clip))))"

text \<open>Width and height of a Rect as the specification defines them.\<close>

definition rectWidth :: "Rect \<Rightarrow> nat" where
  "rectWidth r = unat (right r) - unat (left r) + 1"

definition rectHeight :: "Rect \<Rightarrow> nat" where
  "rectHeight r = unat (bottom r) - unat (top' r) + 1"

definition containedIn :: "Rect \<Rightarrow> Rect \<Rightarrow> bool" where
  "containedIn c r \<longleftrightarrow>
     left r \<le> left c \<and> right c \<le> right r \<and> top' r \<le> top' c \<and> bottom c \<le> bottom r"

text \<open>A valid region inside the bin.\<close>

definition wellPlaced :: "Area \<Rightarrow> Rect \<Rightarrow> bool" where
  "wellPlaced d r \<longleftrightarrow> IsValid r \<and> insideBin d r"

text \<open>
  The clips the search tries when no \<^verbatim>\<open>break\<close> cuts it short: for one orientation,
  the four corner clips of every region the area fits in; then both orientations.
\<close>

definition candidates :: "Rect list \<Rightarrow> Area \<Rightarrow> Rect list" where
  "candidates regions area =
     concat (map (\<lambda>r. cornerClips r area) (filter (\<lambda>r. fits r area) regions))"

definition allCandidates :: "Rect list \<Rightarrow> Area \<Rightarrow> Rect list" where
  "allCandidates regions area = candidates regions area @ candidates regions (rotated area)"

text \<open>A search state whose \<^verbatim>\<open>minScore\<close> has dropped below its initial value.\<close>

definition taken :: "s32 \<times> Rect \<Rightarrow> bool" where
  "taken st \<longleftrightarrow> sint (fst st) < sint INT_MAX"

text \<open>
  A search state is the initial one, or its \<^verbatim>\<open>bestRect\<close> is one of the clips \<open>C\<close>
  with a total score below \<^verbatim>\<open>INT_MAX\<close>.
\<close>

definition chosenFrom :: "Rect list \<Rightarrow> Rect set \<Rightarrow> s32 \<times> Rect \<Rightarrow> bool" where
  "chosenFrom regions C st \<longleftrightarrow>
     st = (INT_MAX, invalidRect)
     \<or> (snd st \<in> C \<and> sint (clipTotal regions (snd st)) < sint INT_MAX)"

section \<open>Runs that grow the bin safely\<close>

text \<open>The cells of the bounding rectangle \<open>[0, width) \<times> [0, height)\<close>.\<close>

definition binCells :: "Area \<Rightarrow> (u32 \<times> u32) set" where
  "binCells d = {p. fst p < width d \<and> snd p < height d}"

text \<open>
  A call \<open>ExtendDimensions(extension)\<close> that does not wrap the dimensions around
  \<open>2 ^ 32\<close> and is not the combination that computes \<^verbatim>\<open>rightEdge\<close> one too large:
  a bin of width 0 grown on both axes in one call.
\<close>

definition growsSafely :: "Bin \<Rightarrow> Area \<Rightarrow> bool" where
  "growsSafely b extension \<longleftrightarrow>
     width (dimensions b) \<le> width (dimensions b) + width extension
     \<and> height (dimensions b) \<le> height (dimensions b) + height extension
     \<and> \<not> (width (dimensions b) = 0 \<and> 0 < width extension \<and> 0 < height extension)"

text \<open>
  What a run keeps true of the Bin and the Rects placed so far: all of them valid
  and inside the bin, the placed Rects pairwise disjoint, and the cells of the bin
  split between the free regions and the placed Rects.
\<close>

definition binInvariant :: "Bin \<times> Rect list \<Rightarrow> bool" where
  "binInvariant st \<longleftrightarrow>
     list_all (wellPlaced (dimensions (fst st))) (emptyRegions (fst st))
     \<and> list_all (wellPlaced (dimensions (fst st))) (snd st)
     \<and> pairwiseDisjoint (snd st)
     \<and> regionCells (emptyRegions (fst st)) \<inter> regionCells (snd st) = {}
     \<and> regionCells (emptyRegions (fst st)) \<union> regionCells (snd st) = binCells (dimensions (fst st))"

text \<open>Every \<open>ExtendDimensions\<close> call of a run grows safely, in the state it is made in.\<close>

fun safeCalls :: "Bin \<times> Rect list \<Rightarrow> call list \<Rightarrow> bool" where
  "safeCalls st [] = True"
| "safeCalls st (Extend extension # calls) =
     (growsSafely (fst st) extension \<and> safeCalls (doCall st (Extend extension)) calls)"
| "safeCalls st (Pack area # calls) = safeCalls (doCall st (Pack area)) calls"

text \<open>
  The free regions of a Bin in which nothing was placed yet: none while a dimension
  is 0, and otherwise the one region that covers the whole bin.
\<close>

definition pristine :: "Bin \<Rightarrow> bool" where
  "pristine b \<longleftrightarrow>
     emptyRegions b =
       (if width (dimensions b) = 0 \<or> height (dimensions b) = 0 then []
        else [\<lparr>left = 0, top' = 0,
               right = width (dimensions b) - 1, bottom = height (dimensions b) - 1\<rparr>])"

section \<open>Cells, areas and overlap\<close>

lemma overlaps_iff_common_cell: "overlaps a b \<longleftrightarrow> cells a \<inter> cells b \<noteq> {}"
proof
  assume "overlaps a b"
  then have "(max (left a) (left b), max (top' a) (top' b)) \<in> cells a \<inter> cells b"
    by (auto simp: overlaps_def cells_def covers_def)
  then show "cells a \<inter> cells b \<noteq> {}" by blast
next
  assume "cells a \<inter> cells b \<noteq> {}"
  then obtain p where "covers a p" "covers b p" by (auto simp: cells_def)
  then show "overlaps a b" by (auto simp: overlaps_def covers_def)
qed

lemma unat_image_interval: "unat ` {a..b::u32} = {unat a..unat b}"
proof (rule set_eqI, rule iffI)
  fix n assume "n \<in> unat ` {a..b}"
  then show "n \<in> {unat a..unat b}" by (auto simp: word_le_nat_alt)
next
  fix n assume n: "n \<in> {unat a..unat b}"
  then have "n \<le> unat b" by simp
  then have "unat (word_of_nat n :: u32) = n" by (rule le_unat_uoi)
  with n show "n \<in> unat ` {a..b}"
    by (metis (no_types, lifting) atLeastAtMost_iff image_eqI word_le_nat_alt)
qed

lemma card_word_interval: "card {a..b::u32} = unat b + 1 - unat a"
proof -
  have "card {a..b} = card (unat ` {a..b})"
    by (rule card_image[symmetric]) (simp add: inj_on_def word_unat_eq_iff)
  then show ?thesis by (simp add: unat_image_interval)
qed

lemma cells_product: "cells r = {left r..right r} \<times> {top' r..bottom r}"
  by (auto simp: cells_def covers_def)

lemma card_cells: "IsValid r \<Longrightarrow> card (cells r) = areaOf r"
  by (simp add: cells_product card_cartesian_product card_word_interval areaOf_def
      IsValid_def word_le_nat_alt Suc_diff_le)

lemma cells_empty_iff: "cells r = {} \<longleftrightarrow> \<not> IsValid r"
  by (auto simp: cells_product IsValid_def)

lemma cells_intersection: "cells region \<inter> cells clip = cells (intersection region clip)"
  by (auto simp: cells_def covers_def intersection_def)

section \<open>The scorer against its specification\<close>

lemma outOfBounds_iff:
  "IsValid region \<Longrightarrow> IsValid clip \<Longrightarrow>
   outOfBounds region clip \<longleftrightarrow> cells region \<inter> cells clip = {}"
  unfolding cells_intersection cells_empty_iff
  by (auto simp: IsValid_def outOfBounds_def intersection_def)

lemma word_span: "(a::u32) \<le> b \<Longrightarrow> b - a + 1 = word_of_nat (unat b - unat a + 1)"
  by (simp add: unat_sub[symmetric])

lemma rectArea_areaOf:
  assumes "IsValid r"
  shows "rectArea r = word_of_nat (areaOf r)"
proof -
  have "right r - left r + 1 = word_of_nat (unat (right r) - unat (left r) + 1)"
    and "bottom r - top' r + 1 = word_of_nat (unat (bottom r) - unat (top' r) + 1)"
    using assms by (simp_all only: IsValid_def word_span)
  then show ?thesis
    by (simp only: rectArea_def areaOf_def of_nat_mult)
qed

lemma clipFactor_spec:
  "clipFactor region clip = 2 + specEdgeTerms region clip - specAlignmentTerms region clip"
  by (auto simp add: clipFactor_def specEdgeTerms_def specAlignmentTerms_def
      rightEdgeTerm_def bottomEdgeTerm_def)

lemma clipFactor_range:
  "IsValid region \<Longrightarrow> 0 \<le> clipFactor region clip \<and> clipFactor region clip \<le> 4"
  by (auto simp: IsValid_def rightEdgeTerm_def bottomEdgeTerm_def clipFactor_def of_bool_def)

lemma GetClipScore_word:
  assumes "IsValid region" "IsValid clip"
  shows "GetClipScore region clip = word_of_int (specScore region clip)"
proof (cases "outOfBounds region clip")
  case True
  with assms show ?thesis
    by (simp add: GetClipScore_def specScore_def outOfBounds_iff)
next
  case False
  with assms have ne: "cells region \<inter> cells clip \<noteq> {}" by (simp add: outOfBounds_iff)
  then have v: "IsValid (intersection region clip)"
    by (simp add: cells_intersection cells_empty_iff)
  have "GetClipScore region clip =
      word_of_int (clipFactor region clip)
      * (word_of_nat (areaOf region) - word_of_nat (areaOf (intersection region clip)))"
    using False assms v by (simp add: GetClipScore_def Let_def rectArea_areaOf)
  also have "\<dots> = word_of_int (clipFactor region clip
      * (int (areaOf region) - int (areaOf (intersection region clip))))"
    by (simp add: wi_hom_syms)
  finally show ?thesis
    using ne assms v
    by (simp add: specScore_def clipFactor_spec card_cells cells_intersection)
qed

lemma specScore_bounds:
  assumes "IsValid region"
  shows "0 \<le> specScore region clip \<and> specScore region clip \<le> 4 * int (card (cells region))"
proof -
  have fin: "finite (cells region)" by simp
  have le: "card (cells region \<inter> cells clip) \<le> card (cells region)"
    by (rule card_mono) (use fin in auto)
  let ?d = "int (card (cells region)) - int (card (cells region \<inter> cells clip))"
  have d: "0 \<le> ?d" "?d \<le> int (card (cells region))" using le by auto
  have f: "0 \<le> clipFactor region clip" "clipFactor region clip \<le> 4"
    using clipFactor_range[OF assms] by auto
  have "clipFactor region clip * ?d \<le> 4 * int (card (cells region))"
    using f d by (intro mult_mono) auto
  moreover have "0 \<le> clipFactor region clip * ?d" using f d by simp
  ultimately show ?thesis
    by (auto simp: specScore_def clipFactor_spec[symmetric])
qed

lemma outOfBounds_intersects: "outOfBounds region clip \<longleftrightarrow> \<not> intersects region clip"
  by (auto simp: outOfBounds_def intersects_def)

lemma intersects_iff_common_cell:
  "IsValid region \<Longrightarrow> IsValid clip \<Longrightarrow>
   intersects region clip \<longleftrightarrow> cells region \<inter> cells clip \<noteq> {}"
  using outOfBounds_iff[of region clip] by (auto simp: outOfBounds_intersects)

lemma GetClipScore_self: "GetClipScore region region = 0"
  by (simp add: GetClipScore_def intersection_def rectArea_def Let_def)

text \<open>
  For a valid region and a valid clip that meet, the specification's score is the
  product of the multiplier and the difference of the two areas, each the width times
  the height of its Rect.
\<close>

lemma specScore_areas:
  assumes "IsValid region" "IsValid clip" "intersects region clip"
  shows "specScore region clip
         = (2 + specEdgeTerms region clip - specAlignmentTerms region clip)
           * (int (areaOf region) - int (areaOf (intersection region clip)))"
proof -
  from assms have ne: "cells region \<inter> cells clip \<noteq> {}"
    by (simp add: intersects_iff_common_cell)
  then have v: "IsValid (intersection region clip)"
    by (simp add: cells_intersection cells_empty_iff)
  show ?thesis
    using ne assms(1) v by (simp add: specScore_def card_cells cells_intersection)
qed

lemma sint_word_of_int_iff:
  "0 \<le> x \<Longrightarrow> sint (word_of_int x :: s32) = x \<longleftrightarrow> x < 2 ^ 31"
proof
  assume "sint (word_of_int x :: s32) = x"
  moreover have "sint (word_of_int x :: s32) < 2 ^ 31"
    using sint_lt[of "word_of_int x :: s32"] by simp
  ultimately show "x < 2 ^ 31" by simp
next
  assume "0 \<le> x" "x < 2 ^ 31"
  then show "sint (word_of_int x :: s32) = x"
    by (simp add: sint_sbintrunc' signed_take_bit_int_eq_self)
qed

text \<open>
  C7, as amended. For a valid region and a valid clip: the clip does not intersect the
  region exactly when they share no cell, and then \<open>GetClipScore\<close> is 0; when they
  intersect, the specification's score is
  \<open>(2 + edge terms - alignment terms) * (regionArea - intersectionArea)\<close> over the
  integers, with the edge and alignment terms of the specification. \<open>GetClipScore\<close>
  is that score reduced to 32 bits; the score is never negative, and \<open>GetClipScore\<close>
  read as a signed \<^verbatim>\<open>int\<close> equals it exactly when the score is below \<open>2 ^ 31\<close>, which
  holds whenever four times the region's area is below \<open>2 ^ 31\<close>. A clip that covers
  the whole region scores 0.
\<close>

theorem GetClipScore_spec_product_within_int:
  assumes "IsValid region" and "IsValid clip"
  shows "(intersects region clip \<longleftrightarrow> cells region \<inter> cells clip \<noteq> {})
   \<and> (\<not> intersects region clip \<longrightarrow> GetClipScore region clip = 0)
   \<and> (intersects region clip \<longrightarrow>
        specScore region clip
        = (2 + specEdgeTerms region clip - specAlignmentTerms region clip)
          * (int (areaOf region) - int (areaOf (intersection region clip))))
   \<and> GetClipScore region clip = word_of_int (specScore region clip)
   \<and> 0 \<le> specScore region clip
   \<and> (sint (GetClipScore region clip) = specScore region clip
        \<longleftrightarrow> specScore region clip < 2 ^ 31)
   \<and> (4 * int (areaOf region) < 2 ^ 31
        \<longrightarrow> sint (GetClipScore region clip) = specScore region clip)
   \<and> (cells region \<subseteq> cells clip \<longrightarrow> GetClipScore region clip = 0)"
proof (intro conjI impI)
  note vr = assms(1) and vc = assms(2)
  have w: "GetClipScore region clip = word_of_int (specScore region clip)"
    by (rule GetClipScore_word[OF vr vc])
  have nonneg: "0 \<le> specScore region clip"
    using specScore_bounds[OF vr, of clip] by simp
  have exact: "sint (GetClipScore region clip) = specScore region clip
        \<longleftrightarrow> specScore region clip < 2 ^ 31"
    unfolding w by (rule sint_word_of_int_iff[OF nonneg])
  show "intersects region clip \<longleftrightarrow> cells region \<inter> cells clip \<noteq> {}"
    by (rule intersects_iff_common_cell[OF vr vc])
  show "GetClipScore region clip = 0" if "\<not> intersects region clip"
    using that by (simp add: GetClipScore_def outOfBounds_intersects)
  show "specScore region clip
        = (2 + specEdgeTerms region clip - specAlignmentTerms region clip)
          * (int (areaOf region) - int (areaOf (intersection region clip)))"
    if "intersects region clip"
    by (rule specScore_areas[OF vr vc that])
  show "GetClipScore region clip = word_of_int (specScore region clip)" by (rule w)
  show "0 \<le> specScore region clip" by (rule nonneg)
  show "sint (GetClipScore region clip) = specScore region clip
        \<longleftrightarrow> specScore region clip < 2 ^ 31"
    by (rule exact)
  show "sint (GetClipScore region clip) = specScore region clip"
    if "4 * int (areaOf region) < 2 ^ 31"
  proof -
    have "specScore region clip < 2 ^ 31"
      using specScore_bounds[OF vr, of clip] card_cells[OF vr] that by simp
    then show ?thesis by (simp only: exact)
  qed
  show "GetClipScore region clip = 0" if "cells region \<subseteq> cells clip"
  proof -
    from that have "cells region \<inter> cells clip = cells region" by blast
    then show ?thesis by (simp add: w specScore_def)
  qed
qed

theorem GetClipScore_spec_product_within_int_witness:
  "IsValid \<lparr>left = 0, top' = 0, right = 9, bottom = 9\<rparr>
   \<and> IsValid \<lparr>left = 0, top' = 0, right = 3, bottom = 3\<rparr>
   \<and> intersects \<lparr>left = 0, top' = 0, right = 9, bottom = 9\<rparr>
                  \<lparr>left = 0, top' = 0, right = 3, bottom = 3\<rparr>
   \<and> 4 * int (areaOf \<lparr>left = 0, top' = 0, right = 9, bottom = 9\<rparr>) < 2 ^ 31
   \<and> specScore \<lparr>left = 0, top' = 0, right = 9, bottom = 9\<rparr>
                \<lparr>left = 0, top' = 0, right = 3, bottom = 3\<rparr> = 168
   \<and> sint (GetClipScore \<lparr>left = 0, top' = 0, right = 9, bottom = 9\<rparr>
                          \<lparr>left = 0, top' = 0, right = 3, bottom = 3\<rparr>) = 168
   \<and> IsValid \<lparr>left = 20, top' = 0, right = 23, bottom = 3\<rparr>
   \<and> \<not> intersects \<lparr>left = 0, top' = 0, right = 9, bottom = 9\<rparr>
                    \<lparr>left = 20, top' = 0, right = 23, bottom = 3\<rparr>
   \<and> cells \<lparr>left = 0, top' = 0, right = 9, bottom = 9\<rparr>
       \<inter> cells \<lparr>left = 20, top' = 0, right = 23, bottom = 3\<rparr> = {}
   \<and> GetClipScore \<lparr>left = 0, top' = 0, right = 9, bottom = 9\<rparr>
                   \<lparr>left = 20, top' = 0, right = 23, bottom = 3\<rparr> = 0
   \<and> cells \<lparr>left = 0, top' = 0, right = 9, bottom = 9\<rparr>
       \<subseteq> cells \<lparr>left = 0, top' = 0, right = 9, bottom = 9\<rparr>
   \<and> GetClipScore \<lparr>left = 0, top' = 0, right = 9, bottom = 9\<rparr>
                   \<lparr>left = 0, top' = 0, right = 9, bottom = 9\<rparr> = 0"
proof -
  let ?R = "\<lparr>left = 0, top' = 0, right = 9, bottom = 9\<rparr>"
  let ?C = "\<lparr>left = 0, top' = 0, right = 3, bottom = 3\<rparr>"
  let ?D = "\<lparr>left = 20, top' = 0, right = 23, bottom = 3\<rparr>"
  have vR: "IsValid ?R" and vC: "IsValid ?C" and vD: "IsValid ?D"
    by (simp_all add: IsValid_def)
  have meet: "intersects ?R ?C" and apart: "\<not> intersects ?R ?D"
    by (simp_all add: intersects_def)
  have small: "4 * int (areaOf ?R) < 2 ^ 31"
    by (simp add: areaOf_def)
  have prod: "(2 + specEdgeTerms ?R ?C - specAlignmentTerms ?R ?C)
              * (int (areaOf ?R) - int (areaOf (intersection ?R ?C))) = 168"
    by (simp add: specEdgeTerms_def specAlignmentTerms_def areaOf_def intersection_def)
  from GetClipScore_spec_product_within_int[OF vR vC] meet
  have "specScore ?R ?C
        = (2 + specEdgeTerms ?R ?C - specAlignmentTerms ?R ?C)
          * (int (areaOf ?R) - int (areaOf (intersection ?R ?C)))"
    by blast
  from this prod have spec: "specScore ?R ?C = 168" by (rule trans)
  from GetClipScore_spec_product_within_int[OF vR vC] small
  have "sint (GetClipScore ?R ?C) = specScore ?R ?C" by blast
  from this spec have score: "sint (GetClipScore ?R ?C) = 168" by (rule trans)
  from GetClipScore_spec_product_within_int[OF vR vD] apart
  have none: "cells ?R \<inter> cells ?D = {}" and zero: "GetClipScore ?R ?D = 0"
    by blast+
  from GetClipScore_spec_product_within_int[OF vR vR]
  have whole: "GetClipScore ?R ?R = 0" by blast
  from vR vC vD meet apart small spec score none zero whole
  show ?thesis by (intro conjI subset_refl)
qed

text \<open>
  The region \<open>{0,0,23170,23170}\<close> has area 536895241, which fits in 32 bits. For the
  clip \<open>{1,1,1,1}\<close> the multiplier is 4 and the product is 2147580960, above
  \<open>2 ^ 31 - 1\<close>; \<open>GetClipScore\<close> returns -2147386336.
\<close>

theorem score_wraps_counterexample:
  "IsValid \<lparr>left = 0, top' = 0, right = 23170, bottom = 23170\<rparr>
   \<and> IsValid \<lparr>left = 1, top' = 1, right = 1, bottom = 1\<rparr>
   \<and> intersects \<lparr>left = 0, top' = 0, right = 23170, bottom = 23170\<rparr>
                  \<lparr>left = 1, top' = 1, right = 1, bottom = 1\<rparr>
   \<and> areaOf \<lparr>left = 0, top' = 0, right = 23170, bottom = 23170\<rparr> = 536895241
   \<and> (2 + specEdgeTerms \<lparr>left = 0, top' = 0, right = 23170, bottom = 23170\<rparr>
                          \<lparr>left = 1, top' = 1, right = 1, bottom = 1\<rparr>
        - specAlignmentTerms \<lparr>left = 0, top' = 0, right = 23170, bottom = 23170\<rparr>
                             \<lparr>left = 1, top' = 1, right = 1, bottom = 1\<rparr>)
     * (int (areaOf \<lparr>left = 0, top' = 0, right = 23170, bottom = 23170\<rparr>)
        - int (areaOf (intersection \<lparr>left = 0, top' = 0, right = 23170, bottom = 23170\<rparr>
                                    \<lparr>left = 1, top' = 1, right = 1, bottom = 1\<rparr>)))
     = 2147580960
   \<and> specScore \<lparr>left = 0, top' = 0, right = 23170, bottom = 23170\<rparr>
                \<lparr>left = 1, top' = 1, right = 1, bottom = 1\<rparr> = 2147580960
   \<and> sint (GetClipScore \<lparr>left = 0, top' = 0, right = 23170, bottom = 23170\<rparr>
                          \<lparr>left = 1, top' = 1, right = 1, bottom = 1\<rparr>) = - 2147386336"
proof -
  let ?R = "\<lparr>left = 0, top' = 0, right = 23170, bottom = 23170\<rparr>"
  let ?C = "\<lparr>left = 1, top' = 1, right = 1, bottom = 1\<rparr>"
  have vR: "IsValid ?R" and vC: "IsValid ?C"
    by (simp_all add: IsValid_def)
  have meet: "intersects ?R ?C"
    by (simp add: intersects_def)
  have area: "areaOf ?R = 536895241"
    by (simp add: areaOf_def)
  have prod: "(2 + specEdgeTerms ?R ?C - specAlignmentTerms ?R ?C)
              * (int (areaOf ?R) - int (areaOf (intersection ?R ?C))) = 2147580960"
    by (simp add: specEdgeTerms_def specAlignmentTerms_def areaOf_def intersection_def)
  have score: "sint (GetClipScore ?R ?C) = - 2147386336"
    by code_simp
  from specScore_areas[OF vR vC meet] prod
  have spec: "specScore ?R ?C = 2147580960" by (rule trans)
  from vR vC meet area prod spec score show ?thesis by (intro conjI)
qed

text \<open>
  C10. For a region with \<open>left \<le> right\<close> and \<open>top \<le> bottom\<close> and any clip, the two
  summands that test \<^verbatim>\<open>clip.right\<close> and \<^verbatim>\<open>clip.bottom\<close> are 0, so the multiplier
  \<^verbatim>\<open>score\<close> lies between 0 and 4.
\<close>

theorem right_bottom_edge_terms_vanish:
  "IsValid region \<Longrightarrow>
     (of_bool (rightEdgeTerm region clip) :: int) = 0
     \<and> (of_bool (bottomEdgeTerm region clip) :: int) = 0
     \<and> 0 \<le> clipFactor region clip \<and> clipFactor region clip \<le> 4"
  by (auto simp: IsValid_def rightEdgeTerm_def bottomEdgeTerm_def clipFactor_def of_bool_def)

theorem right_bottom_edge_terms_vanish_witness:
  "IsValid \<lparr>left = 0, top' = 0, right = 9, bottom = 9\<rparr>
   \<and> (of_bool (rightEdgeTerm \<lparr>left = 0, top' = 0, right = 9, bottom = 9\<rparr>
                    \<lparr>left = 6, top' = 6, right = 12, bottom = 12\<rparr>) :: int) = 0
   \<and> (of_bool (bottomEdgeTerm \<lparr>left = 0, top' = 0, right = 9, bottom = 9\<rparr>
                    \<lparr>left = 6, top' = 6, right = 12, bottom = 12\<rparr>) :: int) = 0
   \<and> 0 \<le> clipFactor \<lparr>left = 0, top' = 0, right = 9, bottom = 9\<rparr>
                       \<lparr>left = 6, top' = 6, right = 12, bottom = 12\<rparr>
   \<and> clipFactor \<lparr>left = 0, top' = 0, right = 9, bottom = 9\<rparr>
                 \<lparr>left = 6, top' = 6, right = 12, bottom = 12\<rparr> \<le> 4"
proof -
  have v: "IsValid \<lparr>left = 0, top' = 0, right = 9, bottom = 9\<rparr>"
    by (simp add: IsValid_def)
  from right_bottom_edge_terms_vanish[OF v] v show ?thesis by blast
qed

section \<open>Growing a fresh Bin on both axes at once\<close>

text \<open>
  C3 (Scenario A). On a fresh Bin, \<^verbatim>\<open>rightEdge\<close> starts at 0 and becomes
  \<open>extension.width\<close>, not \<open>extension.width - 1\<close>, before the height branch builds the
  first region. \<open>ExtendDimensions({10,10})\<close> therefore yields the dimensions \<open>{10,10}\<close>
  and the single region \<open>{0,0,10,9}\<close>, eleven columns wide, where the scenario
  expects \<open>{0,0,9,9}\<close>.
\<close>

theorem scenario_A_region_reaches_column_10:
  "GetDimensions (ExtendDimensions newBin \<lparr>width = 10, height = 10\<rparr>)
     = \<lparr>width = 10, height = 10\<rparr>
   \<and> GetEmptyRegions (ExtendDimensions newBin \<lparr>width = 10, height = 10\<rparr>)
     = [\<lparr>left = 0, top' = 0, right = 10, bottom = 9\<rparr>]"
  by (simp add: GetDimensions_def GetEmptyRegions_def ExtendDimensions_def newBin_def
      extendHeight_def Let_def)

text \<open>Growing the width first and the height in a second call gives \<open>{0,0,9,9}\<close>.\<close>

lemma scenario_A_in_two_calls:
  "ExtendDimensions (ExtendDimensions newBin \<lparr>width = 10, height = 0\<rparr>) \<lparr>width = 0, height = 10\<rparr>
     = \<lparr>dimensions = \<lparr>width = 10, height = 10\<rparr>,
        emptyRegions = [\<lparr>left = 0, top' = 0, right = 9, bottom = 9\<rparr>]\<rparr>"
  by (simp add: ExtendDimensions_def newBin_def extendHeight_def Let_def)

text \<open>
  After the same call the free region's \<open>right\<close> is 10, which is not below the width
  10: the region is not inside the bin's bounding rectangle.
\<close>

lemma scenario_A_region_outside_bin:
  "\<not> list_all (insideBin (GetDimensions (ExtendDimensions newBin \<lparr>width = 10, height = 10\<rparr>)))
       (GetEmptyRegions (ExtendDimensions newBin \<lparr>width = 10, height = 10\<rparr>))"
  by (simp add: GetDimensions_def GetEmptyRegions_def ExtendDimensions_def newBin_def
      extendHeight_def Let_def insideBin_def)

section \<open>The remainder rectangles\<close>

lemma strip_left: "(l::u32) < c \<Longrightarrow> (x \<le> c - 1) = (x < c)"
  by unat_arith

lemma strip_right: "(c::u32) < r \<Longrightarrow> (c + 1 \<le> x) = (c < x)"
  by unat_arith

text \<open>
  C8, as amended. The rectangles staged from a clipped region cover exactly the
  cells of the region that the clip does not cover. (They are not pairwise
  disjoint: see the counterexample below.)
\<close>

theorem remainders_cover_difference:
  "clipsRegion clip i \<Longrightarrow> regionCells (remainders clip i) = cells i - cells clip"
  by (auto simp: regionCells_def clipsRegion_def remainders_def cells_def covers_def
      strip_left strip_right split: if_splits)

theorem remainders_cover_difference_witness:
  "clipsRegion \<lparr>left = 0, top' = 0, right = 3, bottom = 3\<rparr> \<lparr>left = 0, top' = 0, right = 9, bottom = 9\<rparr>
   \<and> regionCells [\<lparr>left = 4, top' = 0, right = 9, bottom = 9\<rparr>, \<lparr>left = 0, top' = 4, right = 9, bottom = 9\<rparr>]
     = cells \<lparr>left = 0, top' = 0, right = 9, bottom = 9\<rparr> - cells \<lparr>left = 0, top' = 0, right = 3, bottom = 3\<rparr>"
proof -
  have c: "clipsRegion \<lparr>left = 0, top' = 0, right = 3, bottom = 3\<rparr> \<lparr>left = 0, top' = 0, right = 9, bottom = 9\<rparr>"
    by (simp add: clipsRegion_def)
  have r: "remainders \<lparr>left = 0, top' = 0, right = 3, bottom = 3\<rparr> \<lparr>left = 0, top' = 0, right = 9, bottom = 9\<rparr>
     = [\<lparr>left = 4, top' = 0, right = 9, bottom = 9\<rparr>, \<lparr>left = 0, top' = 4, right = 9, bottom = 9\<rparr>]"
    by (simp add: remainders_def)
  from remainders_cover_difference[OF c] c r show ?thesis by simp
qed

text \<open>
  Clipping \<open>{0,0,9,9}\<close> by \<open>{0,0,3,3}\<close> stages the right strip \<open>{4,0,9,9}\<close> and the
  bottom strip \<open>{0,4,9,9}\<close>, which share the block from \<open>(4,4)\<close> to \<open>(9,9)\<close>.
\<close>

theorem remainders_overlap_counterexample:
  "clipsRegion \<lparr>left = 0, top' = 0, right = 3, bottom = 3\<rparr> \<lparr>left = 0, top' = 0, right = 9, bottom = 9\<rparr>
   \<and> \<not> pairwiseDisjoint (remainders \<lparr>left = 0, top' = 0, right = 3, bottom = 3\<rparr>
                                      \<lparr>left = 0, top' = 0, right = 9, bottom = 9\<rparr>)"
  by (simp add: clipsRegion_def remainders_def overlaps_def)

section \<open>The placement search\<close>

lemma sint_le_INT_MAX: "sint (x::s32) \<le> sint INT_MAX"
  using sint_lt[of x] by (simp add: INT_MAX_def)

lemma not_taken_init: "\<not> taken (INT_MAX, invalidRect)"
  by (simp add: taken_def)

lemma tryClip_taken:
  "taken st \<or> sint (clipTotal regions clip) < sint INT_MAX \<Longrightarrow> taken (fst (tryClip regions clip st))"
  using sint_le_INT_MAX[of "fst st"]
  by (auto simp: tryClip_def taken_def Let_def)

lemma tryClip_break_taken: "snd (tryClip regions clip st) \<Longrightarrow> taken (fst (tryClip regions clip st))"
  using sint_le_INT_MAX[of "fst st"]
  by (auto simp: tryClip_def taken_def Let_def split: if_splits)

lemma tryCorners_taken:
  "taken st \<or> (\<exists>c \<in> set clips. sint (clipTotal regions c) < sint INT_MAX)
   \<Longrightarrow> taken (fst (tryCorners regions clips st))"
proof (induction clips arbitrary: st)
  case Nil
  then show ?case by simp
next
  case (Cons clip clips)
  obtain st' brk where t: "tryClip regions clip st = (st', brk)" by (cases "tryClip regions clip st")
  show ?case
  proof (cases brk)
    case True
    with t tryClip_break_taken[of regions clip st] show ?thesis by simp
  next
    case False
    have "taken st' \<or> (\<exists>c \<in> set clips. sint (clipTotal regions c) < sint INT_MAX)"
      using Cons.prems tryClip_taken[of st regions clip] t by auto
    from Cons.IH[OF this] t False show ?thesis by simp
  qed
qed

lemma tryCorners_break_taken:
  "snd (tryCorners regions clips st) \<Longrightarrow> taken (fst (tryCorners regions clips st))"
proof (induction clips arbitrary: st)
  case Nil
  then show ?case by simp
next
  case (Cons clip clips)
  obtain st' brk where t: "tryClip regions clip st = (st', brk)" by (cases "tryClip regions clip st")
  show ?case
  proof (cases brk)
    case True
    with t tryClip_break_taken[of regions clip st] show ?thesis by simp
  next
    case False
    with Cons t show ?thesis by simp
  qed
qed

lemma scanRegions_taken:
  "taken st \<or> (\<exists>c \<in> set (candidates rs area). sint (clipTotal regions c) < sint INT_MAX)
   \<Longrightarrow> taken (scanRegions regions area rs st)"
proof (induction rs arbitrary: st)
  case Nil
  then show ?case by (simp add: candidates_def)
next
  case (Cons r rs)
  show ?case
  proof (cases "fits r area")
    case False
    with Cons.prems have "taken st \<or> (\<exists>c \<in> set (candidates rs area). sint (clipTotal regions c) < sint INT_MAX)"
      by (simp add: candidates_def)
    from Cons.IH[OF this] False show ?thesis by simp
  next
    case True
    obtain st' brk where t: "tryCorners regions (cornerClips r area) st = (st', brk)"
      by (cases "tryCorners regions (cornerClips r area) st")
    show ?thesis
    proof (cases brk)
      case True
      with t tryCorners_break_taken[of regions "cornerClips r area" st] \<open>fits r area\<close>
      show ?thesis by simp
    next
      case False
      have "taken st' \<or> (\<exists>c \<in> set (candidates rs area). sint (clipTotal regions c) < sint INT_MAX)"
        using Cons.prems tryCorners_taken[of st "cornerClips r area" regions] t True
        by (auto simp: candidates_def)
      from Cons.IH[OF this] t False True show ?thesis by simp
    qed
  qed
qed

lemma findBest_taken:
  assumes "\<exists>c \<in> set (allCandidates regions area). sint (clipTotal regions c) < sint INT_MAX"
  shows "taken (findBest regions area)"
proof -
  let ?st = "scanRegions regions area regions (INT_MAX, invalidRect)"
  show ?thesis
  proof (cases "fst ?st = 0")
    case True
    then show ?thesis by (simp add: findBest_def Let_def taken_def INT_MAX_def)
  next
    case False
    have "taken ?st \<or> (\<exists>c \<in> set (candidates regions (rotated area)). sint (clipTotal regions c) < sint INT_MAX)"
      using assms scanRegions_taken[of "(INT_MAX, invalidRect)" regions area regions]
      by (auto simp: allCandidates_def)
    from scanRegions_taken[OF this] False show ?thesis by (simp add: findBest_def Let_def)
  qed
qed

text \<open>Whatever the search returns was chosen among the clips it may try.\<close>

lemma tryClip_chosen:
  "chosenFrom regions C st \<Longrightarrow> clip \<in> C \<Longrightarrow> chosenFrom regions C (fst (tryClip regions clip st))"
  using sint_le_INT_MAX[of "fst st"]
  by (auto simp: tryClip_def chosenFrom_def Let_def)

lemma tryCorners_chosen:
  "chosenFrom regions C st \<Longrightarrow> set clips \<subseteq> C \<Longrightarrow> chosenFrom regions C (fst (tryCorners regions clips st))"
proof (induction clips arbitrary: st)
  case Nil
  then show ?case by simp
next
  case (Cons clip clips)
  obtain st' brk where t: "tryClip regions clip st = (st', brk)" by (cases "tryClip regions clip st")
  have "chosenFrom regions C st'" using tryClip_chosen[of regions C st clip] Cons.prems t by simp
  with Cons t show ?case by (cases brk) auto
qed

lemma scanRegions_chosen:
  "chosenFrom regions C st \<Longrightarrow> set (candidates rs area) \<subseteq> C \<Longrightarrow> chosenFrom regions C (scanRegions regions area rs st)"
proof (induction rs arbitrary: st)
  case Nil
  then show ?case by simp
next
  case (Cons r rs)
  show ?case
  proof (cases "fits r area")
    case False
    with Cons show ?thesis by (simp add: candidates_def)
  next
    case True
    obtain st' brk where t: "tryCorners regions (cornerClips r area) st = (st', brk)"
      by (cases "tryCorners regions (cornerClips r area) st")
    have "chosenFrom regions C st'"
      using tryCorners_chosen[of regions C st "cornerClips r area"] Cons.prems t True
      by (simp add: candidates_def)
    moreover have "set (candidates rs area) \<subseteq> C" using Cons.prems True by (simp add: candidates_def)
    ultimately show ?thesis using Cons.IH t True by (cases brk) auto
  qed
qed

lemma findBest_chosen: "chosenFrom regions (set (allCandidates regions area)) (findBest regions area)"
proof -
  let ?C = "set (allCandidates regions area)"
  have 0: "chosenFrom regions ?C (INT_MAX, invalidRect)" by (simp add: chosenFrom_def)
  have 1: "chosenFrom regions ?C (scanRegions regions area regions (INT_MAX, invalidRect))"
    by (rule scanRegions_chosen[OF 0]) (simp add: allCandidates_def)
  have 2: "chosenFrom regions ?C (scanRegions regions (rotated area) regions
      (scanRegions regions area regions (INT_MAX, invalidRect)))"
    by (rule scanRegions_chosen[OF 1]) (simp add: allCandidates_def)
  from 1 2 show ?thesis by (simp add: findBest_def Let_def)
qed

lemma invalidRect_invalid: "\<not> IsValid invalidRect"
  by (simp add: invalidRect_def IsValid_def)

lemma fit_span:
  fixes a b d :: "32 word"
  assumes "a \<le> b" "d - 1 \<le> b - a" "0 < d"
  shows "a \<le> a + d - 1" "a + d - 1 \<le> b" "a \<le> b - d + 1" "b - d + 1 \<le> b"
    "unat (a + d - 1) - unat a + 1 = unat d" "unat b - unat (b - d + 1) + 1 = unat d"
proof -
  have d1: "unat (d - 1) = unat d - 1" using assms(3) by (simp add: unat_minus_one word_neq_0_conv)
  have dpos: "0 < unat d" using assms(3) by (simp add: word_less_nat_alt)
  have ba: "unat (b - a) = unat b - unat a" using assms(1) by (simp add: unat_sub)
  have le: "unat a \<le> unat b" using assms(1) by (simp add: word_le_nat_alt)
  have fit: "unat d - 1 \<le> unat b - unat a" using assms(2) d1 ba by (simp add: word_le_nat_alt)
  have bb: "unat b < 2 ^ 32" using unsigned_less[of b] by simp
  have e1: "a + d - 1 = a + (d - 1)" by simp
  have s1: "unat (a + (d - 1)) = unat a + (unat d - 1)"
    using fit le bb d1 by (simp add: unat_add_lem[THEN iffD1])
  have e2: "b - d + 1 = b - (d - 1)" by simp
  have s2: "unat (b - (d - 1)) = unat b - (unat d - 1)"
    using fit le d1 by (simp add: unat_sub word_le_nat_alt)
  show "a \<le> a + d - 1" "a + d - 1 \<le> b" "a \<le> b - d + 1" "b - d + 1 \<le> b"
    "unat (a + d - 1) - unat a + 1 = unat d" "unat b - unat (b - d + 1) + 1 = unat d"
    unfolding e1 e2 word_le_nat_alt s1 s2 using fit le dpos by auto
qed


lemma cornerClips_fit:
  assumes "IsValid r" "fits r area" "0 < width area" "0 < height area" "c \<in> set (cornerClips r area)"
  shows "IsValid c \<and> containedIn c r
    \<and> rectWidth c = unat (width area) \<and> rectHeight c = unat (height area)"
proof -
  have w: "left r \<le> right r" "width area - 1 \<le> right r - left r" "0 < width area"
    and h: "top' r \<le> bottom r" "height area - 1 \<le> bottom r - top' r" "0 < height area"
    using assms by (auto simp: IsValid_def fits_def)
  note W = fit_span[OF w] and H = fit_span[OF h]
  from assms(5) W H w(1) h(1) show ?thesis
    by (auto simp: cornerClips_def IsValid_def containedIn_def rectWidth_def rectHeight_def)
qed

section \<open>The free-region update\<close>

lemma remainders_cells:
  "clipsRegion clip i \<Longrightarrow> regionCells (remainders clip i) = cells i - cells clip"
  by (auto simp: regionCells_def clipsRegion_def remainders_def cells_def covers_def
      strip_left strip_right split: if_splits)

lemma regionCells_Nil [simp]: "regionCells [] = {}"
  by (simp add: regionCells_def)

lemma regionCells_Cons [simp]: "regionCells (r # rs) = cells r \<union> regionCells rs"
  by (simp add: regionCells_def)

lemma regionCells_append [simp]: "regionCells (xs @ ys) = regionCells xs \<union> regionCells ys"
  by (auto simp: regionCells_def)

lemma regionCells_set: "set xs = set ys \<Longrightarrow> regionCells xs = regionCells ys"
  by (simp add: regionCells_def)

lemma not_clipped_apart: "\<not> clipsRegion clip i \<Longrightarrow> cells i - cells clip = cells i"
  by (auto simp: clipsRegion_def cells_def covers_def)

lemma clipRegions_cells:
  "regionCells (fst (clipRegions clip rs)) \<union> regionCells (snd (clipRegions clip rs))
     = regionCells rs - cells clip"
proof (induction rs)
  case Nil
  then show ?case by simp
next
  case (Cons i rs)
  show ?case
  proof (cases "clipsRegion clip i")
    case True
    have "regionCells (fst (clipRegions clip (i # rs))) \<union> regionCells (snd (clipRegions clip (i # rs)))
        = (regionCells (fst (clipRegions clip rs)) \<union> regionCells (snd (clipRegions clip rs)))
          \<union> regionCells (remainders clip i)"
      using True by (auto simp: case_prod_unfold Let_def)
    then show ?thesis using Cons.IH remainders_cells[OF True] by auto
  next
    case False
    have "regionCells (fst (clipRegions clip (i # rs))) \<union> regionCells (snd (clipRegions clip (i # rs)))
        = (regionCells (fst (clipRegions clip rs)) \<union> regionCells (snd (clipRegions clip rs)))
          \<union> cells i"
      using False by (auto simp: case_prod_unfold Let_def)
    then show ?thesis using Cons.IH not_clipped_apart[OF False] by auto
  qed
qed

lemma mergeRects_cells: "mergeable new i \<Longrightarrow> cells (mergeRects i new) = cells i \<union> cells new"
  unfolding mergeable_def mergeRects_def cells_def covers_def
  by (auto simp: min_def max_def)

text \<open>The binary search reads inside the list and returns a position of it.\<close>

lemma upper_bound_range:
  "first \<le> upper_bound xs first len val \<and> upper_bound xs first len val \<le> first + len"
proof (induction xs first len val rule: upper_bound.induct)
  case (1 xs first len val)
  show ?case
  proof (cases "len = 0")
    case True
    then show ?thesis by (simp add: upper_bound.simps)
  next
    case False
    let ?half = "len div 2"
    let ?middle = "first + ?half"
    have half: "?half \<le> len" "?half < len" using False by simp_all
    show ?thesis
    proof (cases "originKey val < originKey (xs ! ?middle)")
      case True
      then have "upper_bound xs first len val = upper_bound xs first ?half val"
        using False by (subst upper_bound.simps) (simp add: Let_def)
      with 1(1)[OF False refl refl True] half show ?thesis by simp
    next
      case less: False
      then have "upper_bound xs first len val = upper_bound xs (?middle + 1) (len - ?half - 1) val"
        using False by (subst upper_bound.simps) (simp add: Let_def)
      with 1(2)[OF False refl refl less] half show ?thesis by simp
    qed
  qed
qed

lemma emplaceRegion_length: "length (emplaceRegion regions newRegion) = Suc (length regions)"
  using upper_bound_range[of 0 regions "length regions" newRegion]
  by (simp add: emplaceRegion_def Let_def)


lemma set_emplaceRegion: "set (emplaceRegion xs v) = insert v (set xs)"
proof -
  have "set (take k xs) \<union> set (drop k xs) = set xs" for k
    by (metis append_take_drop_id set_append)
  then show ?thesis by (auto simp: emplaceRegion_def Let_def)
qed

lemma regionCells_emplace: "regionCells (emplaceRegion xs v) = cells v \<union> regionCells xs"
  by (simp add: regionCells_def set_emplaceRegion)

lemma regionCells_remove1: "i \<in> set xs \<Longrightarrow> cells i \<union> regionCells (remove1 i xs) = regionCells xs"
proof (induction xs)
  case Nil
  then show ?case by simp
next
  case (Cons x xs)
  then show ?case by (cases "i = x") auto
qed

lemma insertRegion_cells: "regionCells (insertRegion rs new) = regionCells rs \<union> cells new"
proof (cases "find (mergeable new) rs")
  case None
  then show ?thesis by (auto simp: insertRegion_def regionCells_emplace)
next
  case (Some i)
  then have i: "i \<in> set rs" "mergeable new i"
    by (auto simp: find_Some_iff)
  have "regionCells (insertRegion rs new) = cells (mergeRects i new) \<union> regionCells (remove1 i rs)"
    using Some by (simp add: insertRegion_def regionCells_emplace)
  also have "\<dots> = cells new \<union> (cells i \<union> regionCells (remove1 i rs))"
    using mergeRects_cells[OF i(2)] by auto
  finally show ?thesis using regionCells_remove1[OF i(1)] by auto
qed

lemma foldl_insertRegion_cells:
  "regionCells (foldl insertRegion kept staged) = regionCells kept \<union> regionCells staged"
  by (induction staged arbitrary: kept) (auto simp: insertRegion_cells)

lemma applyClip_cells: "regionCells (applyClip clip rs) = regionCells rs - cells clip"
  using clipRegions_cells[of clip rs]
  by (simp add: applyClip_def case_prod_unfold Let_def foldl_insertRegion_cells)

text \<open>The update keeps every region valid and inside the bin.\<close>

lemma dec_le: "(l::u32) < c \<Longrightarrow> l \<le> c - 1 \<and> c - 1 < c"
  by unat_arith

lemma inc_le: "(c::u32) < r \<Longrightarrow> c + 1 \<le> r \<and> c < c + 1"
  by unat_arith

lemma remainders_wellPlaced:
  assumes "wellPlaced d i" "r \<in> set (remainders clip i)"
  shows "wellPlaced d r"
proof -
  have i: "left i \<le> right i" "top' i \<le> bottom i" "right i < width d" "bottom i < height d"
    using assms(1) by (auto simp: wellPlaced_def IsValid_def insideBin_def)
  from assms(2) consider
      (L) "left i < left clip" "left clip \<le> right i"
          "r = \<lparr>left = left i, top' = top' i, right = left clip - 1, bottom = bottom i\<rparr>"
    | (T) "top' i < top' clip" "top' clip \<le> bottom i"
          "r = \<lparr>left = left i, top' = top' i, right = right i, bottom = top' clip - 1\<rparr>"
    | (R) "right clip < right i" "left i \<le> right clip"
          "r = \<lparr>left = right clip + 1, top' = top' i, right = right i, bottom = bottom i\<rparr>"
    | (B) "bottom clip < bottom i" "top' i \<le> bottom clip"
          "r = \<lparr>left = left i, top' = bottom clip + 1, right = right i, bottom = bottom i\<rparr>"
    by (auto simp: remainders_def split: if_splits)
  then show ?thesis
  proof cases
    case L
    with dec_le[OF L(1)] i show ?thesis by (auto simp: wellPlaced_def IsValid_def insideBin_def)
  next
    case T
    with dec_le[OF T(1)] i show ?thesis by (auto simp: wellPlaced_def IsValid_def insideBin_def)
  next
    case R
    with inc_le[OF R(1)] i show ?thesis by (auto simp: wellPlaced_def IsValid_def insideBin_def)
  next
    case B
    with inc_le[OF B(1)] i show ?thesis by (auto simp: wellPlaced_def IsValid_def insideBin_def)
  qed
qed

lemma mergeRects_wellPlaced:
  "wellPlaced d i \<Longrightarrow> wellPlaced d new \<Longrightarrow> wellPlaced d (mergeRects i new)"
  unfolding wellPlaced_def IsValid_def insideBin_def mergeRects_def
  by (auto simp: min_def max_def)

lemma clipRegions_wellPlaced:
  "list_all (wellPlaced d) rs \<Longrightarrow>
   list_all (wellPlaced d) (fst (clipRegions clip rs)) \<and> list_all (wellPlaced d) (snd (clipRegions clip rs))"
proof (induction rs)
  case Nil
  then show ?case by simp
next
  case (Cons i rs)
  then have i: "wellPlaced d i" and rs: "list_all (wellPlaced d) rs" by simp_all
  have "list_all (wellPlaced d) (remainders clip i)"
    using remainders_wellPlaced[OF i] by (simp add: list_all_iff)
  with Cons.IH[OF rs] i show ?case
    by (simp add: case_prod_unfold Let_def)
qed

lemma insertRegion_wellPlaced:
  assumes "list_all (wellPlaced d) rs" "wellPlaced d new"
  shows "list_all (wellPlaced d) (insertRegion rs new)"
proof (cases "find (mergeable new) rs")
  case None
  with assms show ?thesis by (auto simp: insertRegion_def list_all_iff set_emplaceRegion)
next
  case (Some i)
  then have i: "i \<in> set rs" by (auto simp: find_Some_iff)
  then have "wellPlaced d (mergeRects i new)"
    using assms by (auto simp: list_all_iff intro: mergeRects_wellPlaced)
  moreover have "set (remove1 i rs) \<subseteq> set rs" by (rule set_remove1_subset)
  ultimately show ?thesis using Some assms(1)
    by (auto simp: insertRegion_def list_all_iff set_emplaceRegion)
qed

lemma foldl_insertRegion_wellPlaced:
  "list_all (wellPlaced d) kept \<Longrightarrow> list_all (wellPlaced d) staged \<Longrightarrow>
   list_all (wellPlaced d) (foldl insertRegion kept staged)"
  by (induction staged arbitrary: kept) (auto simp: insertRegion_wellPlaced)

lemma applyClip_wellPlaced:
  "list_all (wellPlaced d) rs \<Longrightarrow> list_all (wellPlaced d) (applyClip clip rs)"
  using clipRegions_wellPlaced[of d rs clip]
  by (simp add: applyClip_def case_prod_unfold Let_def foldl_insertRegion_wellPlaced)

section \<open>What TryPackArea returns\<close>

lemma containedIn_cells: "containedIn c r \<Longrightarrow> cells c \<subseteq> cells r"
  by (auto simp: containedIn_def cells_def covers_def)

lemma allCandidates_fit:
  assumes "list_all IsValid regions" "0 < width area" "0 < height area"
    and "c \<in> set (allCandidates regions area)"
  shows "\<exists>r \<in> set regions. \<exists>a. (a = area \<or> a = rotated area) \<and> fits r a
      \<and> IsValid c \<and> containedIn c r
      \<and> rectWidth c = unat (width a) \<and> rectHeight c = unat (height a)"
proof -
  from assms(4) obtain r a where ra: "r \<in> set regions" "a = area \<or> a = rotated area"
      "fits r a" "c \<in> set (cornerClips r a)"
    by (auto simp: allCandidates_def candidates_def)
  have "IsValid r" using assms(1) ra(1) by (simp add: list_all_iff)
  moreover have "0 < width a" "0 < height a" using ra(2) assms(2,3) by (auto simp: rotated_def)
  ultimately show ?thesis using cornerClips_fit[of r a c] ra by blast
qed

lemma findBest_valid_iff:
  assumes "list_all IsValid regions" "0 < width area" "0 < height area"
  shows "IsValid (snd (findBest regions area)) \<longleftrightarrow>
     (\<exists>c \<in> set (allCandidates regions area). sint (clipTotal regions c) < sint INT_MAX)"
proof
  assume v: "IsValid (snd (findBest regions area))"
  then have "findBest regions area \<noteq> (INT_MAX, invalidRect)"
    using invalidRect_invalid by auto
  with findBest_chosen[of regions area]
  show "\<exists>c \<in> set (allCandidates regions area). sint (clipTotal regions c) < sint INT_MAX"
    by (auto simp: chosenFrom_def)
next
  assume "\<exists>c \<in> set (allCandidates regions area). sint (clipTotal regions c) < sint INT_MAX"
  then have "taken (findBest regions area)" by (rule findBest_taken)
  then have "findBest regions area \<noteq> (INT_MAX, invalidRect)"
    using not_taken_init by auto
  with findBest_chosen[of regions area]
  have "snd (findBest regions area) \<in> set (allCandidates regions area)"
    by (auto simp: chosenFrom_def)
  from allCandidates_fit[OF assms this] show "IsValid (snd (findBest regions area))" by blast
qed

lemma findBest_valid_candidate:
  "IsValid (snd (findBest regions area)) \<Longrightarrow> snd (findBest regions area) \<in> set (allCandidates regions area)"
  using findBest_chosen[of regions area] invalidRect_invalid
  by (auto simp: chosenFrom_def)

lemma TryPackArea_success:
  assumes "IsValid (fst (TryPackArea b area))"
  shows "0 < width area \<and> 0 < height area
     \<and> width area \<le> width (dimensions b) \<and> height area \<le> height (dimensions b)
     \<and> IsValid (snd (findBest (emptyRegions b) area))
     \<and> TryPackArea b area = (snd (findBest (emptyRegions b) area),
          b\<lparr>emptyRegions := applyClip (snd (findBest (emptyRegions b) area)) (emptyRegions b)\<rparr>)"
  using assms invalidRect_invalid
  by (auto simp: TryPackArea_def Let_def split: if_splits)

lemma TryPackArea_failure:
  assumes "\<not> IsValid (fst (TryPackArea b area))"
  shows "TryPackArea b area = (invalidRect, b)"
  using assms by (auto simp: TryPackArea_def Let_def split: if_splits)

lemma TryPackArea_valid_iff:
  "IsValid (fst (TryPackArea b area)) \<longleftrightarrow>
     0 < width area \<and> 0 < height area
     \<and> width area \<le> width (dimensions b) \<and> height area \<le> height (dimensions b)
     \<and> IsValid (snd (findBest (emptyRegions b) area))"
  using invalidRect_invalid
  by (auto simp: TryPackArea_def Let_def split: if_splits)

lemma span_size:
  fixes l r d :: u32
  assumes "l \<le> r" "r - l = d - 1" "0 < d"
  shows "unat r - unat l + 1 = unat d"
proof -
  have "unat (r - l) = unat r - unat l" using assms(1) by (simp add: unat_sub)
  moreover have "unat (d - 1) = unat d - 1" using assms(3) by (simp add: unat_minus_one word_neq_0_conv)
  moreover have "0 < unat d" using assms(3) by (simp add: word_less_nat_alt)
  ultimately show ?thesis using assms(2) by simp
qed

lemma cornerClips_size:
  assumes "c \<in> set (cornerClips r a)" "IsValid c" "0 < width a" "0 < height a"
  shows "rectWidth c = unat (width a) \<and> rectHeight c = unat (height a)"
proof -
  have "right c - left c = width a - 1" "bottom c - top' c = height a - 1"
    using assms(1) by (auto simp: cornerClips_def)
  with assms(2-4) span_size[of "left c" "right c" "width a"] span_size[of "top' c" "bottom c" "height a"]
  show ?thesis
    by (simp add: rectWidth_def rectHeight_def IsValid_def)
qed

lemma allCandidates_corner:
  assumes "c \<in> set (allCandidates regions area)"
  shows "\<exists>r \<in> set regions. \<exists>a. (a = area \<or> a = rotated area) \<and> fits r a \<and> c \<in> set (cornerClips r a)"
  using assms by (auto simp: allCandidates_def candidates_def)

text \<open>
  C9, as amended. When \<open>TryPackArea\<close> returns a valid Rect, that Rect is a corner
  clip of one of the free regions of the Bin before the call, a region that passed
  the fit test for the requested area as given or with width and height swapped; it
  has exactly that orientation's width and height; and it lies inside that region
  provided the region is a valid Rect.
\<close>

theorem TryPackArea_result_fits_a_region:
  assumes "IsValid (fst (TryPackArea b area))"
  shows "\<exists>r \<in> set (GetEmptyRegions b). \<exists>a. (a = area \<or> a = rotated area)
      \<and> fits r a \<and> fst (TryPackArea b area) \<in> set (cornerClips r a)
      \<and> rectWidth (fst (TryPackArea b area)) = unat (width a)
      \<and> rectHeight (fst (TryPackArea b area)) = unat (height a)
      \<and> (IsValid r \<longrightarrow> containedIn (fst (TryPackArea b area)) r)"
proof -
  let ?best = "snd (findBest (emptyRegions b) area)"
  from TryPackArea_success[OF assms]
  have pos: "0 < width area" "0 < height area" and v: "IsValid ?best"
    and res: "fst (TryPackArea b area) = ?best" by simp_all
  have "?best \<in> set (allCandidates (emptyRegions b) area)"
    by (rule findBest_valid_candidate[OF v])
  from allCandidates_corner[OF this] obtain r a
    where ra: "r \<in> set (emptyRegions b)" "a = area \<or> a = rotated area" "fits r a"
      "?best \<in> set (cornerClips r a)" by blast
  have apos: "0 < width a" "0 < height a" using ra(2) pos by (auto simp: rotated_def)
  have size: "rectWidth ?best = unat (width a) \<and> rectHeight ?best = unat (height a)"
    by (rule cornerClips_size[OF ra(4) v apos])
  have "containedIn ?best r" if "IsValid r"
    using cornerClips_fit[OF that ra(3) apos ra(4)] by simp
  with ra size show ?thesis
    unfolding res GetEmptyRegions_def by blast
qed

theorem TryPackArea_result_fits_a_region_witness:
  "IsValid (fst (TryPackArea
      \<lparr>dimensions = \<lparr>width = 10, height = 10\<rparr>,
       emptyRegions = [\<lparr>left = 0, top' = 0, right = 9, bottom = 9\<rparr>]\<rparr> \<lparr>width = 4, height = 6\<rparr>))
   \<and> IsValid \<lparr>left = 0, top' = 0, right = 9, bottom = 9\<rparr>
   \<and> rectWidth (fst (TryPackArea
      \<lparr>dimensions = \<lparr>width = 10, height = 10\<rparr>,
       emptyRegions = [\<lparr>left = 0, top' = 0, right = 9, bottom = 9\<rparr>]\<rparr> \<lparr>width = 4, height = 6\<rparr>))
       \<in> {4, 6}
   \<and> containedIn (fst (TryPackArea
      \<lparr>dimensions = \<lparr>width = 10, height = 10\<rparr>,
       emptyRegions = [\<lparr>left = 0, top' = 0, right = 9, bottom = 9\<rparr>]\<rparr> \<lparr>width = 4, height = 6\<rparr>))
      \<lparr>left = 0, top' = 0, right = 9, bottom = 9\<rparr>"
proof -
  let ?b = "\<lparr>dimensions = \<lparr>width = 10, height = 10\<rparr>,
       emptyRegions = [\<lparr>left = 0, top' = 0, right = 9, bottom = 9\<rparr>]\<rparr>"
  let ?area = "\<lparr>width = 4, height = 6\<rparr>"
  have region: "IsValid \<lparr>left = 0, top' = 0, right = 9, bottom = 9\<rparr>"
    by (simp add: IsValid_def)
  have ok: "IsValid (fst (TryPackArea ?b ?area))"
    by code_simp
  from TryPackArea_result_fits_a_region[OF ok] obtain r a
    where ra: "r \<in> set (GetEmptyRegions ?b)" "a = ?area \<or> a = rotated ?area"
      "rectWidth (fst (TryPackArea ?b ?area)) = unat (width a)"
      "IsValid r \<longrightarrow> containedIn (fst (TryPackArea ?b ?area)) r"
    by blast
  from ra(1) have r: "r = \<lparr>left = 0, top' = 0, right = 9, bottom = 9\<rparr>"
    by (simp add: GetEmptyRegions_def)
  from ra(2,3) have "rectWidth (fst (TryPackArea ?b ?area)) \<in> {4, 6}"
    by (auto simp: rotated_def)
  with ra(4) r region ok show ?thesis by simp
qed

text \<open>
  C6, as amended. A call of \<open>TryPackArea\<close> that returns an invalid Rect leaves the Bin
  as it was, and no call changes the dimensions. When all free regions are valid
  Rects, a call that returns a valid Rect changes the sequence of free regions, so
  that the Bin is unchanged if and only if the call fails.
\<close>

theorem TryPackArea_changes_state_iff_success:
  "(\<not> IsValid (fst (TryPackArea b area)) \<longrightarrow> snd (TryPackArea b area) = b)
    \<and> GetDimensions (snd (TryPackArea b area)) = GetDimensions b
    \<and> (list_all IsValid (GetEmptyRegions b) \<longrightarrow>
         (IsValid (fst (TryPackArea b area))
            \<longrightarrow> GetEmptyRegions (snd (TryPackArea b area)) \<noteq> GetEmptyRegions b)
         \<and> (snd (TryPackArea b area) = b \<longleftrightarrow> \<not> IsValid (fst (TryPackArea b area))))"
proof -
  have dims: "GetDimensions (snd (TryPackArea b area)) = GetDimensions b"
    by (simp add: TryPackArea_def GetDimensions_def Let_def)
  have unchanged: "snd (TryPackArea b area) = b" if "\<not> IsValid (fst (TryPackArea b area))"
    using TryPackArea_failure[OF that] by simp
  have changed: "GetEmptyRegions (snd (TryPackArea b area)) \<noteq> GetEmptyRegions b"
    if regions: "list_all IsValid (GetEmptyRegions b)" and ok: "IsValid (fst (TryPackArea b area))"
  proof
    let ?best = "snd (findBest (emptyRegions b) area)"
    assume same: "GetEmptyRegions (snd (TryPackArea b area)) = GetEmptyRegions b"
    from TryPackArea_success[OF ok]
    have pos: "0 < width area" "0 < height area" and v: "IsValid ?best"
      and res: "snd (TryPackArea b area) = b\<lparr>emptyRegions := applyClip ?best (emptyRegions b)\<rparr>"
      by simp_all
    have "?best \<in> set (allCandidates (emptyRegions b) area)"
      by (rule findBest_valid_candidate[OF v])
    from allCandidates_fit[OF _ pos this] regions
    obtain r where r: "r \<in> set (emptyRegions b)" "containedIn ?best r"
      unfolding GetEmptyRegions_def by auto
    have "cells ?best \<subseteq> regionCells (emptyRegions b)"
      using containedIn_cells[OF r(2)] r(1) by (auto simp: regionCells_def)
    moreover have "cells ?best \<noteq> {}" using v by (simp add: cells_empty_iff)
    moreover have "regionCells (emptyRegions b) = regionCells (emptyRegions b) - cells ?best"
      using same res applyClip_cells[of ?best "emptyRegions b"]
      by (simp add: GetEmptyRegions_def)
    ultimately show False by blast
  qed
  from dims changed unchanged show ?thesis by auto
qed

theorem TryPackArea_changes_state_iff_success_witness:
  "list_all IsValid (GetEmptyRegions
      \<lparr>dimensions = \<lparr>width = 10, height = 10\<rparr>,
       emptyRegions = [\<lparr>left = 0, top' = 0, right = 9, bottom = 9\<rparr>]\<rparr>)
   \<and> IsValid (fst (TryPackArea
      \<lparr>dimensions = \<lparr>width = 10, height = 10\<rparr>,
       emptyRegions = [\<lparr>left = 0, top' = 0, right = 9, bottom = 9\<rparr>]\<rparr> \<lparr>width = 4, height = 6\<rparr>))
   \<and> GetEmptyRegions (snd (TryPackArea
      \<lparr>dimensions = \<lparr>width = 10, height = 10\<rparr>,
       emptyRegions = [\<lparr>left = 0, top' = 0, right = 9, bottom = 9\<rparr>]\<rparr> \<lparr>width = 4, height = 6\<rparr>))
     \<noteq> GetEmptyRegions
      \<lparr>dimensions = \<lparr>width = 10, height = 10\<rparr>,
       emptyRegions = [\<lparr>left = 0, top' = 0, right = 9, bottom = 9\<rparr>]\<rparr>
   \<and> \<not> IsValid (fst (TryPackArea
      \<lparr>dimensions = \<lparr>width = 10, height = 10\<rparr>,
       emptyRegions = [\<lparr>left = 0, top' = 0, right = 9, bottom = 9\<rparr>]\<rparr> \<lparr>width = 11, height = 1\<rparr>))
   \<and> snd (TryPackArea
      \<lparr>dimensions = \<lparr>width = 10, height = 10\<rparr>,
       emptyRegions = [\<lparr>left = 0, top' = 0, right = 9, bottom = 9\<rparr>]\<rparr> \<lparr>width = 11, height = 1\<rparr>)
     = \<lparr>dimensions = \<lparr>width = 10, height = 10\<rparr>,
       emptyRegions = [\<lparr>left = 0, top' = 0, right = 9, bottom = 9\<rparr>]\<rparr>"
proof -
  let ?b = "\<lparr>dimensions = \<lparr>width = 10, height = 10\<rparr>,
       emptyRegions = [\<lparr>left = 0, top' = 0, right = 9, bottom = 9\<rparr>]\<rparr>"
  have regions: "list_all IsValid (GetEmptyRegions ?b)"
    by (simp add: GetEmptyRegions_def IsValid_def)
  have ok: "IsValid (fst (TryPackArea ?b \<lparr>width = 4, height = 6\<rparr>))"
    by code_simp
  have no: "\<not> IsValid (fst (TryPackArea ?b \<lparr>width = 11, height = 1\<rparr>))"
    by code_simp
  from TryPackArea_changes_state_iff_success[of ?b "\<lparr>width = 4, height = 6\<rparr>"]
    TryPackArea_changes_state_iff_success[of ?b "\<lparr>width = 11, height = 1\<rparr>"]
    regions ok no
  show ?thesis by blast
qed

section \<open>When TryPackArea fails\<close>

lemma fold_add_sum_list:
  fixes a :: "'a::comm_monoid_add"
  shows "fold (\<lambda>r s. s + f r) rs a = a + sum_list (map f rs)"
  by (induction rs arbitrary: a) (simp_all add: add.assoc)

lemma clipTotal_sum: "clipTotal regions clip = sum_list (map (\<lambda>r. GetClipScore r clip) regions)"
  by (simp add: clipTotal_def fold_add_sum_list)

lemma clipTotal_spec:
  assumes "list_all IsValid regions" "IsValid clip"
  shows "clipTotal regions clip = word_of_int (sum_list (map (\<lambda>r. specScore r clip) regions))"
  using assms(1) unfolding clipTotal_sum
  by (induction regions) (simp_all add: GetClipScore_word[OF _ assms(2)] wi_hom_syms)

lemma specScore_sum_bounds:
  assumes "list_all IsValid regions"
  shows "0 \<le> sum_list (map (\<lambda>r. specScore r clip) regions)
    \<and> sum_list (map (\<lambda>r. specScore r clip) regions) \<le> 4 * int (sum_list (map areaOf regions))"
  using assms
proof (induction regions)
  case Nil
  then show ?case by simp
next
  case (Cons r rs)
  then have r: "IsValid r" and rs: "list_all IsValid rs" by simp_all
  from specScore_bounds[OF r, of clip] card_cells[OF r] Cons.IH[OF rs]
  show ?case by simp
qed

lemma clipTotal_below_INT_MAX:
  assumes "list_all IsValid regions" "IsValid clip"
    and "4 * sum_list (map areaOf regions) < 2 ^ 31 - 1"
  shows "sint (clipTotal regions clip) < sint INT_MAX"
proof -
  let ?S = "sum_list (map (\<lambda>r. specScore r clip) regions)"
  have "int (4 * sum_list (map areaOf regions)) < int (2 ^ 31 - 1)"
    using assms(3) by (simp only: of_nat_less_iff)
  then have "4 * int (sum_list (map areaOf regions)) < 2 ^ 31 - 1"
    by simp
  with specScore_sum_bounds[OF assms(1), of clip] have b: "0 \<le> ?S" "?S < 2 ^ 31 - 1" by auto
  then have "sint (word_of_int ?S :: s32) = ?S"
    by (simp add: sint_sbintrunc' signed_take_bit_int_eq_self)
  with b show ?thesis by (simp add: clipTotal_spec[OF assms(1,2)] INT_MAX_def)
qed

lemma cornerClips_nonempty: "cornerClips r a \<noteq> []"
  by (simp add: cornerClips_def)

lemma some_candidate_iff_fits:
  "allCandidates regions area \<noteq> [] \<longleftrightarrow> (\<exists>r \<in> set regions. fits r area \<or> fits r (rotated area))"
  by (auto simp: allCandidates_def candidates_def cornerClips_nonempty)

lemma candidates_below_INT_MAX_iff:
  assumes "list_all IsValid regions" "0 < width area" "0 < height area"
    and "4 * sum_list (map areaOf regions) < 2 ^ 31 - 1"
  shows "(\<exists>c \<in> set (allCandidates regions area). sint (clipTotal regions c) < sint INT_MAX)
     \<longleftrightarrow> (\<exists>r \<in> set regions. fits r area \<or> fits r (rotated area))"
proof -
  have below: "sint (clipTotal regions c) < sint INT_MAX" if "c \<in> set (allCandidates regions area)" for c
  proof -
    from allCandidates_fit[OF assms(1-3) that] have "IsValid c" by blast
    from clipTotal_below_INT_MAX[OF assms(1) this assms(4)] show ?thesis .
  qed
  have "(\<exists>c \<in> set (allCandidates regions area). sint (clipTotal regions c) < sint INT_MAX)
     \<longleftrightarrow> allCandidates regions area \<noteq> []"
  proof
    assume "\<exists>c \<in> set (allCandidates regions area). sint (clipTotal regions c) < sint INT_MAX"
    then show "allCandidates regions area \<noteq> []" by auto
  next
    assume "allCandidates regions area \<noteq> []"
    then obtain c where c: "c \<in> set (allCandidates regions area)"
      by (cases "allCandidates regions area") auto
    with below[OF c] show "\<exists>c \<in> set (allCandidates regions area). sint (clipTotal regions c) < sint INT_MAX"
      by (rule_tac x = c in bexI)
  qed
  then show ?thesis by (simp only: some_candidate_iff_fits)
qed

text \<open>
  C5, as amended. When all free regions are valid Rects, \<open>TryPackArea\<close> returns an
  invalid Rect exactly when the requested width or height is 0, or the area as given
  is wider or taller than the bin (the guard does not look at the rotated area), or
  no clip the search tries has a total score below \<^verbatim>\<open>INT_MAX\<close>. As long as four
  times the sum of the free regions' areas stays below \<open>2 ^ 31 - 1\<close>, the last case
  means that no free region admits a fitting clip in either orientation.
\<close>

theorem TryPackArea_fails_iff:
  assumes "list_all IsValid (GetEmptyRegions b)"
  shows "(\<not> IsValid (fst (TryPackArea b area)) \<longleftrightarrow>
       width area = 0 \<or> height area = 0
       \<or> width (GetDimensions b) < width area \<or> height (GetDimensions b) < height area
       \<or> \<not> (\<exists>c \<in> set (allCandidates (GetEmptyRegions b) area).
              sint (clipTotal (GetEmptyRegions b) c) < sint INT_MAX))
    \<and> (4 * sum_list (map areaOf (GetEmptyRegions b)) < 2 ^ 31 - 1 \<longrightarrow>
        (\<not> IsValid (fst (TryPackArea b area)) \<longleftrightarrow>
           width area = 0 \<or> height area = 0
           \<or> width (GetDimensions b) < width area \<or> height (GetDimensions b) < height area
           \<or> \<not> (\<exists>r \<in> set (GetEmptyRegions b). fits r area \<or> fits r (rotated area))))"
proof -
  have general: "\<not> IsValid (fst (TryPackArea b area)) \<longleftrightarrow>
       width area = 0 \<or> height area = 0
       \<or> width (GetDimensions b) < width area \<or> height (GetDimensions b) < height area
       \<or> \<not> (\<exists>c \<in> set (allCandidates (GetEmptyRegions b) area).
              sint (clipTotal (GetEmptyRegions b) c) < sint INT_MAX)"
  proof (cases "0 < width area \<and> 0 < height area")
    case True
    then have "IsValid (snd (findBest (emptyRegions b) area)) \<longleftrightarrow>
       (\<exists>c \<in> set (allCandidates (emptyRegions b) area). sint (clipTotal (emptyRegions b) c) < sint INT_MAX)"
      using findBest_valid_iff[of "emptyRegions b" area] assms by (simp add: GetEmptyRegions_def)
    with True show ?thesis
      unfolding TryPackArea_valid_iff GetEmptyRegions_def GetDimensions_def
      by (auto simp: word_neq_0_conv not_less)
  next
    case False
    then show ?thesis
      unfolding TryPackArea_valid_iff by (auto simp: word_neq_0_conv)
  qed
  have small: "\<not> IsValid (fst (TryPackArea b area)) \<longleftrightarrow>
           width area = 0 \<or> height area = 0
           \<or> width (GetDimensions b) < width area \<or> height (GetDimensions b) < height area
           \<or> \<not> (\<exists>r \<in> set (GetEmptyRegions b). fits r area \<or> fits r (rotated area))"
    if s: "4 * sum_list (map areaOf (GetEmptyRegions b)) < 2 ^ 31 - 1"
  proof (cases "0 < width area \<and> 0 < height area")
    case True
    then have "(\<exists>c \<in> set (allCandidates (GetEmptyRegions b) area).
              sint (clipTotal (GetEmptyRegions b) c) < sint INT_MAX)
      \<longleftrightarrow> (\<exists>r \<in> set (GetEmptyRegions b). fits r area \<or> fits r (rotated area))"
      using candidates_below_INT_MAX_iff[OF assms _ _ s] by simp
    with general show ?thesis by simp
  next
    case False
    then show ?thesis
      unfolding TryPackArea_valid_iff by (auto simp: word_neq_0_conv)
  qed
  from general small show ?thesis by blast
qed

text \<open>
  Scenario D: a 5 by 5 bin whose only free region is 5 wide and 1 tall takes the
  request \<open>{1,5}\<close> in its rotated orientation; the request \<open>{6,1}\<close> is wider than the bin.
\<close>

theorem TryPackArea_fails_iff_witness:
  "list_all IsValid (GetEmptyRegions
      \<lparr>dimensions = \<lparr>width = 5, height = 5\<rparr>,
       emptyRegions = [\<lparr>left = 0, top' = 4, right = 4, bottom = 4\<rparr>]\<rparr>)
   \<and> 4 * sum_list (map areaOf (GetEmptyRegions
      \<lparr>dimensions = \<lparr>width = 5, height = 5\<rparr>,
       emptyRegions = [\<lparr>left = 0, top' = 4, right = 4, bottom = 4\<rparr>]\<rparr>)) < 2 ^ 31 - 1
   \<and> fits \<lparr>left = 0, top' = 4, right = 4, bottom = 4\<rparr> (rotated \<lparr>width = 1, height = 5\<rparr>)
   \<and> IsValid (fst (TryPackArea
      \<lparr>dimensions = \<lparr>width = 5, height = 5\<rparr>,
       emptyRegions = [\<lparr>left = 0, top' = 4, right = 4, bottom = 4\<rparr>]\<rparr> \<lparr>width = 1, height = 5\<rparr>))
   \<and> \<not> IsValid (fst (TryPackArea
      \<lparr>dimensions = \<lparr>width = 5, height = 5\<rparr>,
       emptyRegions = [\<lparr>left = 0, top' = 4, right = 4, bottom = 4\<rparr>]\<rparr> \<lparr>width = 6, height = 1\<rparr>))"
proof -
  let ?b = "\<lparr>dimensions = \<lparr>width = 5, height = 5\<rparr>,
       emptyRegions = [\<lparr>left = 0, top' = 4, right = 4, bottom = 4\<rparr>]\<rparr>"
  have regions: "list_all IsValid (GetEmptyRegions ?b)"
    by (simp add: GetEmptyRegions_def IsValid_def)
  have small: "4 * sum_list (map areaOf (GetEmptyRegions ?b)) < 2 ^ 31 - 1"
    by (simp add: GetEmptyRegions_def areaOf_def)
  have fit: "fits \<lparr>left = 0, top' = 4, right = 4, bottom = 4\<rparr> (rotated \<lparr>width = 1, height = 5\<rparr>)"
    by (simp add: fits_def rotated_def)
  have wide: "width (GetDimensions ?b) < width \<lparr>width = 6, height = 1\<rparr>"
    by (simp add: GetDimensions_def)
  have "IsValid (fst (TryPackArea ?b \<lparr>width = 1, height = 5\<rparr>))"
    using TryPackArea_fails_iff[OF regions, of "\<lparr>width = 1, height = 5\<rparr>"] small fit
    by (simp add: GetEmptyRegions_def GetDimensions_def)
  moreover have "\<not> IsValid (fst (TryPackArea ?b \<lparr>width = 6, height = 1\<rparr>))"
    using TryPackArea_fails_iff[OF regions, of "\<lparr>width = 6, height = 1\<rparr>"] wide
    by blast
  ultimately show ?thesis using regions small fit by blast
qed

section \<open>Growing the bin\<close>

lemma updateFirst_None: "updateFirst P f rs = None \<longleftrightarrow> (\<forall>r \<in> set rs. \<not> P r)"
  by (induction rs) auto

lemma updateFirst_Some:
  "updateFirst P f rs = Some rs' \<Longrightarrow> \<exists>xs r ys. rs = xs @ r # ys \<and> P r \<and> rs' = xs @ f r # ys"
proof (induction rs arbitrary: rs')
  case Nil
  then show ?case by simp
next
  case (Cons a rs)
  show ?case
  proof (cases "P a")
    case True
    with Cons.prems have "rs' = f a # rs" by simp
    with True show ?thesis by (intro exI[of _ "[]"] exI[of _ a] exI[of _ rs]) simp
  next
    case False
    with Cons.prems obtain rs'' where r: "updateFirst P f rs = Some rs''" "rs' = a # rs''"
      by auto
    from Cons.IH[OF r(1)] obtain xs r ys where "rs = xs @ r # ys" "P r" "rs'' = xs @ f r # ys"
      by blast
    with r(2) show ?thesis by (intro exI[of _ "a # xs"] exI[of _ r] exI[of _ ys]) simp
  qed
qed

text \<open>Word arithmetic for an edge that moves outwards without wrapping.\<close>

lemma grow_facts:
  fixes W w :: u32
  assumes "0 < w" "W \<le> W + w"
  shows "W < W + w" "W \<le> W + w - 1" "(x \<le> W + w - 1) = (x < W + w)"
  using assms by unat_arith+

lemma pred_facts:
  fixes W :: u32
  assumes "0 < W"
  shows "(x \<le> W - 1) = (x < W)" "W - 1 < W"
  using assms by unat_arith+

lemma edge_shift: "(W::u32) - 1 + w = W + w - 1"
  by simp

lemma full_span:
  fixes t b H :: u32
  assumes "t \<le> b" "b < H" "b - t = H - 1"
  shows "t = 0" "b = H - 1"
  using assms by unat_arith+

lemma wellPlaced_mono:
  "wellPlaced d r \<Longrightarrow> width d \<le> width d' \<Longrightarrow> height d \<le> height d' \<Longrightarrow> wellPlaced d' r"
  by (auto simp: wellPlaced_def insideBin_def)

lemma wellPlaced_cells: "wellPlaced d r \<Longrightarrow> cells r \<subseteq> binCells d"
  by (auto simp: wellPlaced_def insideBin_def cells_def covers_def binCells_def)

lemma widen_region:
  assumes wp: "wellPlaced \<lparr>width = W, height = H\<rparr> r" and edge: "right r = W - 1"
    and w: "0 < w" "W \<le> W + w"
  shows "cells r \<subseteq> cells (r\<lparr>right := right r + w\<rparr>)"
    and "cells (r\<lparr>right := right r + w\<rparr>)
          \<subseteq> cells r \<union> (binCells \<lparr>width = W + w, height = H\<rparr> - binCells \<lparr>width = W, height = H\<rparr>)"
    and "wellPlaced \<lparr>width = W + w, height = H\<rparr> (r\<lparr>right := right r + w\<rparr>)"
proof -
  from wp have r: "left r \<le> right r" "top' r \<le> bottom r" "right r < W" "bottom r < H"
    by (auto simp: wellPlaced_def IsValid_def insideBin_def)
  have W: "0 < W" using r(3) by (cases "W = 0") (auto simp: word_neq_0_conv)
  have new: "right r + w = W + w - 1" using edge by simp
  have g1: "W < W + w" and g3: "\<And>x. (x \<le> W + w - 1) = (x < W + w)"
    using grow_facts[OF w] by auto
  have p1: "\<And>x. (x \<le> W - 1) = (x < W)" using pred_facts[OF W] by auto
  have l: "left r < W" using r(1,3) by simp
  show "cells r \<subseteq> cells (r\<lparr>right := right r + w\<rparr>)"
  proof
    fix p assume "p \<in> cells r"
    then have "left r \<le> fst p" "fst p \<le> right r" "top' r \<le> snd p" "snd p \<le> bottom r"
      by (auto simp: cells_def covers_def)
    moreover have "fst p < W + w" using \<open>fst p \<le> right r\<close> r(3) g1 by simp
    ultimately show "p \<in> cells (r\<lparr>right := right r + w\<rparr>)"
      by (simp add: cells_def covers_def new g3)
  qed
  show "cells (r\<lparr>right := right r + w\<rparr>)
          \<subseteq> cells r \<union> (binCells \<lparr>width = W + w, height = H\<rparr> - binCells \<lparr>width = W, height = H\<rparr>)"
  proof
    fix p assume "p \<in> cells (r\<lparr>right := right r + w\<rparr>)"
    then have p: "left r \<le> fst p" "fst p < W + w" "top' r \<le> snd p" "snd p \<le> bottom r"
      by (auto simp: cells_def covers_def new g3)
    then have y: "snd p < H" using r(4) by simp
    show "p \<in> cells r \<union> (binCells \<lparr>width = W + w, height = H\<rparr> - binCells \<lparr>width = W, height = H\<rparr>)"
    proof (cases "fst p < W")
      case True
      then have "fst p \<le> right r" by (simp add: edge p1)
      with p show ?thesis by (simp add: cells_def covers_def)
    next
      case False
      with p y show ?thesis by (simp add: binCells_def)
    qed
  qed
  show "wellPlaced \<lparr>width = W + w, height = H\<rparr> (r\<lparr>right := right r + w\<rparr>)"
  proof -
    have "left r \<le> W + w - 1" using l g1 by (simp add: g3)
    moreover have "W + w - 1 < W + w" using g3[of "W + w - 1"] by simp
    ultimately show ?thesis
      unfolding new using r by (simp add: wellPlaced_def IsValid_def insideBin_def)
  qed
qed

lemma width_strip_cells:
  assumes "0 < H" "0 < w" "W \<le> W + w"
  shows "cells \<lparr>left = W, top' = 0, right = W + w - 1, bottom = H - 1\<rparr>
      = binCells \<lparr>width = W + w, height = H\<rparr> - binCells \<lparr>width = W, height = H\<rparr>"
    and "wellPlaced \<lparr>width = W + w, height = H\<rparr> \<lparr>left = W, top' = 0, right = W + w - 1, bottom = H - 1\<rparr>"
proof -
  have g1: "W < W + w" and g2: "W \<le> W + w - 1" and g3: "\<And>x. (x \<le> W + w - 1) = (x < W + w)"
    using grow_facts[OF assms(2,3)] by auto
  have p1: "\<And>x. (x \<le> H - 1) = (x < H)" using pred_facts[OF assms(1)] by auto
  show "cells \<lparr>left = W, top' = 0, right = W + w - 1, bottom = H - 1\<rparr>
      = binCells \<lparr>width = W + w, height = H\<rparr> - binCells \<lparr>width = W, height = H\<rparr>"
    by (auto simp: cells_def covers_def binCells_def g3 p1)
  have "W + w - 1 < W + w" using g3[of "W + w - 1"] by simp
  moreover have "H - 1 < H" using p1[of "H - 1"] by simp
  ultimately show "wellPlaced \<lparr>width = W + w, height = H\<rparr> \<lparr>left = W, top' = 0, right = W + w - 1, bottom = H - 1\<rparr>"
    using g2 by (simp add: wellPlaced_def IsValid_def insideBin_def)
qed

lemma not_wellPlaced_zero_width: "\<not> wellPlaced \<lparr>width = 0, height = H\<rparr> r"
  by (simp add: wellPlaced_def insideBin_def)

lemma extendWidth_spec:
  assumes wp: "list_all (wellPlaced \<lparr>width = W, height = H\<rparr>) regions"
    and H: "0 < H" and w: "0 < w" "W \<le> W + w"
  shows "regionCells (extendWidth W w (if 0 < W then W - 1 else 0) (H - 1) regions)
      = regionCells regions \<union> (binCells \<lparr>width = W + w, height = H\<rparr> - binCells \<lparr>width = W, height = H\<rparr>)"
    and "list_all (wellPlaced \<lparr>width = W + w, height = H\<rparr>)
          (extendWidth W w (if 0 < W then W - 1 else 0) (H - 1) regions)"
proof -
  let ?edge = "if 0 < W then W - 1 else 0"
  let ?P = "\<lambda>r. right r = ?edge \<and> bottom r - top' r = H - 1"
  let ?f = "\<lambda>r. r\<lparr>right := right r + w\<rparr>"
  let ?strip = "binCells \<lparr>width = W + w, height = H\<rparr> - binCells \<lparr>width = W, height = H\<rparr>"
  let ?d' = "\<lparr>width = W + w, height = H\<rparr>"
  have all: "wellPlaced \<lparr>width = W, height = H\<rparr> r" if "r \<in> set regions" for r
    using wp that by (simp add: list_all_iff)
  have Wpos: "0 < W" if "r \<in> set regions" for r
    using all[OF that] not_wellPlaced_zero_width[of H r] by (cases "W = 0") (auto simp: word_neq_0_conv)
  have mono: "wellPlaced ?d' r" if "r \<in> set regions" for r
    using wellPlaced_mono[OF all[OF that], of ?d'] w(2) by simp
  have widen: "cells r \<subseteq> cells (?f r)" "cells (?f r) \<subseteq> cells r \<union> ?strip" "wellPlaced ?d' (?f r)"
    if "r \<in> set regions" "right r = ?edge" for r
  proof -
    have "right r = W - 1" using that Wpos[OF that(1)] by simp
    from widen_region[OF all[OF that(1)] this w]
    show "cells r \<subseteq> cells (?f r)" "cells (?f r) \<subseteq> cells r \<union> ?strip" "wellPlaced ?d' (?f r)"
      by auto
  qed
  show "regionCells (extendWidth W w ?edge (H - 1) regions) = regionCells regions \<union> ?strip"
    and "list_all (wellPlaced ?d') (extendWidth W w ?edge (H - 1) regions)"
  proof (atomize (full), cases "updateFirst ?P ?f regions")
    case None
    let ?g = "\<lambda>r. if right r = ?edge then ?f r else r"
    let ?new = "\<lparr>left = W, top' = 0, right = W + w - 1, bottom = H - 1\<rparr>"
    have ext: "extendWidth W w ?edge (H - 1) regions = map ?g regions @ [?new]"
      using None by (simp add: extendWidth_def)
    have g: "cells r \<subseteq> cells (?g r)" "cells (?g r) \<subseteq> cells r \<union> ?strip" "wellPlaced ?d' (?g r)"
      if "r \<in> set regions" for r
      using widen[OF that] mono[OF that] by auto
    have "regionCells (map ?g regions) \<union> ?strip = regionCells regions \<union> ?strip"
    proof
      show "regionCells (map ?g regions) \<union> ?strip \<subseteq> regionCells regions \<union> ?strip"
        using g(2) by (fastforce simp: regionCells_def)
      show "regionCells regions \<union> ?strip \<subseteq> regionCells (map ?g regions) \<union> ?strip"
        using g(1) by (fastforce simp: regionCells_def)
    qed
    moreover have "list_all (wellPlaced ?d') (map ?g regions)"
      unfolding list_all_iff
    proof
      fix x assume "x \<in> set (map ?g regions)"
      then obtain r where "r \<in> set regions" "x = ?g r" by (auto simp only: set_map image_iff)
      with g(3)[of r] show "wellPlaced ?d' x" by (simp only:)
    qed
    ultimately show "regionCells (extendWidth W w ?edge (H - 1) regions) = regionCells regions \<union> ?strip
        \<and> list_all (wellPlaced ?d') (extendWidth W w ?edge (H - 1) regions)"
      unfolding ext using width_strip_cells[OF H w] by simp
  next
    case (Some regions')
    from updateFirst_Some[OF Some] obtain xs r ys
      where split: "regions = xs @ r # ys" "?P r" "regions' = xs @ ?f r # ys" by blast
    have ext: "extendWidth W w ?edge (H - 1) regions = xs @ ?f r # ys"
      using Some split(3) by (simp add: extendWidth_def)
    have rin: "r \<in> set regions" using split(1) by simp
    have rwp: "wellPlaced \<lparr>width = W, height = H\<rparr> r" by (rule all[OF rin])
    then have "top' r \<le> bottom r" "bottom r < H"
      by (auto simp: wellPlaced_def IsValid_def insideBin_def)
    from full_span[OF this] split(2) have tb: "top' r = 0" "bottom r = H - 1" by auto
    have edge: "right r = W - 1" using split(2) Wpos[OF rin] by simp
    have sub: "?strip \<subseteq> cells (?f r)"
    proof
      fix p assume "p \<in> ?strip"
      then have p: "W \<le> fst p" "fst p < W + w" "snd p < H" by (auto simp: binCells_def)
      have "left r \<le> right r" "right r < W" using rwp by (auto simp: wellPlaced_def IsValid_def insideBin_def)
      then have "left r \<le> fst p" using p(1) by simp
      moreover have e: "right r + w = W + w - 1" using edge by simp
      have "fst p \<le> W + w - 1" using p(2) grow_facts(3)[OF w] by simp
      then have "fst p \<le> right r + w" by (simp only: e)
      moreover have "snd p \<le> H - 1" using p(3) pred_facts(1)[OF H] by simp
      ultimately show "p \<in> cells (?f r)" by (simp add: cells_def covers_def tb)
    qed
    have "cells (?f r) = cells r \<union> ?strip"
      using widen(1,2)[OF rin] split(2) sub by auto
    moreover have "list_all (wellPlaced ?d') (xs @ ?f r # ys)"
      using widen(3)[OF rin] split(2) mono split(1) by (auto simp: list_all_iff)
    ultimately show "regionCells (extendWidth W w ?edge (H - 1) regions) = regionCells regions \<union> ?strip
        \<and> list_all (wellPlaced ?d') (extendWidth W w ?edge (H - 1) regions)"
      unfolding ext by (auto simp: split(1))
  qed
qed

lemma heighten_region:
  assumes wp: "wellPlaced \<lparr>width = W, height = H\<rparr> r" and edge: "bottom r = H - 1"
    and h: "0 < h" "H \<le> H + h"
  shows "cells r \<subseteq> cells (r\<lparr>bottom := bottom r + h\<rparr>)"
    and "cells (r\<lparr>bottom := bottom r + h\<rparr>)
          \<subseteq> cells r \<union> (binCells \<lparr>width = W, height = H + h\<rparr> - binCells \<lparr>width = W, height = H\<rparr>)"
    and "wellPlaced \<lparr>width = W, height = H + h\<rparr> (r\<lparr>bottom := bottom r + h\<rparr>)"
proof -
  from wp have r: "top' r \<le> bottom r" "left r \<le> right r" "bottom r < H" "right r < W"
    by (auto simp: wellPlaced_def IsValid_def insideBin_def)
  have H: "0 < H" using r(3) by (cases "H = 0") (auto simp: word_neq_0_conv)
  have new: "bottom r + h = H + h - 1" using edge by simp
  have g1: "H < H + h" and g3: "\<And>x. (x \<le> H + h - 1) = (x < H + h)"
    using grow_facts[OF h] by auto
  have p1: "\<And>x. (x \<le> H - 1) = (x < H)" using pred_facts[OF H] by auto
  have l: "top' r < H" using r(1,3) by simp
  show "cells r \<subseteq> cells (r\<lparr>bottom := bottom r + h\<rparr>)"
  proof
    fix p assume "p \<in> cells r"
    then have "top' r \<le> snd p" "snd p \<le> bottom r" "left r \<le> fst p" "fst p \<le> right r"
      by (auto simp: cells_def covers_def)
    moreover have "snd p < H + h" using \<open>snd p \<le> bottom r\<close> r(3) g1 by simp
    ultimately show "p \<in> cells (r\<lparr>bottom := bottom r + h\<rparr>)"
      by (simp add: cells_def covers_def new g3)
  qed
  show "cells (r\<lparr>bottom := bottom r + h\<rparr>)
          \<subseteq> cells r \<union> (binCells \<lparr>width = W, height = H + h\<rparr> - binCells \<lparr>width = W, height = H\<rparr>)"
  proof
    fix p assume "p \<in> cells (r\<lparr>bottom := bottom r + h\<rparr>)"
    then have p: "top' r \<le> snd p" "snd p < H + h" "left r \<le> fst p" "fst p \<le> right r"
      by (auto simp: cells_def covers_def new g3)
    then have y: "fst p < W" using r(4) by simp
    show "p \<in> cells r \<union> (binCells \<lparr>width = W, height = H + h\<rparr> - binCells \<lparr>width = W, height = H\<rparr>)"
    proof (cases "snd p < H")
      case True
      then have "snd p \<le> bottom r" by (simp add: edge p1)
      with p show ?thesis by (simp add: cells_def covers_def)
    next
      case False
      with p y show ?thesis by (simp add: binCells_def)
    qed
  qed
  show "wellPlaced \<lparr>width = W, height = H + h\<rparr> (r\<lparr>bottom := bottom r + h\<rparr>)"
  proof -
    have "top' r \<le> H + h - 1" using l g1 by (simp add: g3)
    moreover have "H + h - 1 < H + h" using g3[of "H + h - 1"] by simp
    ultimately show ?thesis
      unfolding new using r by (simp add: wellPlaced_def IsValid_def insideBin_def)
  qed
qed

lemma height_strip_cells:
  assumes "0 < W" "0 < h" "H \<le> H + h"
  shows "cells \<lparr>left = 0, top' = H, right = W - 1, bottom = H + h - 1\<rparr>
      = binCells \<lparr>width = W, height = H + h\<rparr> - binCells \<lparr>width = W, height = H\<rparr>"
    and "wellPlaced \<lparr>width = W, height = H + h\<rparr> \<lparr>left = 0, top' = H, right = W - 1, bottom = H + h - 1\<rparr>"
proof -
  have g1: "H < H + h" and g2: "H \<le> H + h - 1" and g3: "\<And>x. (x \<le> H + h - 1) = (x < H + h)"
    using grow_facts[OF assms(2,3)] by auto
  have p1: "\<And>x. (x \<le> W - 1) = (x < W)" using pred_facts[OF assms(1)] by auto
  show "cells \<lparr>left = 0, top' = H, right = W - 1, bottom = H + h - 1\<rparr>
      = binCells \<lparr>width = W, height = H + h\<rparr> - binCells \<lparr>width = W, height = H\<rparr>"
    by (auto simp: cells_def covers_def binCells_def g3 p1)
  have "H + h - 1 < H + h" using g3[of "H + h - 1"] by simp
  moreover have "W - 1 < W" using p1[of "W - 1"] by simp
  ultimately show "wellPlaced \<lparr>width = W, height = H + h\<rparr> \<lparr>left = 0, top' = H, right = W - 1, bottom = H + h - 1\<rparr>"
    using g2 by (simp add: wellPlaced_def IsValid_def insideBin_def)
qed

lemma not_wellPlaced_zero_height: "\<not> wellPlaced \<lparr>width = W, height = 0\<rparr> r"
  by (simp add: wellPlaced_def insideBin_def)

lemma extendHeight_spec:
  assumes wp: "list_all (wellPlaced \<lparr>width = W, height = H\<rparr>) regions"
    and W: "0 < W" and h: "0 < h" "H \<le> H + h"
  shows "regionCells (extendHeight H h (W - 1) (if 0 < H then H - 1 else 0) regions)
      = regionCells regions \<union> (binCells \<lparr>width = W, height = H + h\<rparr> - binCells \<lparr>width = W, height = H\<rparr>)"
    and "list_all (wellPlaced \<lparr>width = W, height = H + h\<rparr>)
          (extendHeight H h (W - 1) (if 0 < H then H - 1 else 0) regions)"
proof -
  let ?edge = "if 0 < H then H - 1 else 0"
  let ?P = "\<lambda>r. bottom r = ?edge \<and> right r - left r = W - 1"
  let ?f = "\<lambda>r. r\<lparr>bottom := bottom r + h\<rparr>"
  let ?strip = "binCells \<lparr>width = W, height = H + h\<rparr> - binCells \<lparr>width = W, height = H\<rparr>"
  let ?d' = "\<lparr>width = W, height = H + h\<rparr>"
  have all: "wellPlaced \<lparr>width = W, height = H\<rparr> r" if "r \<in> set regions" for r
    using wp that by (simp add: list_all_iff)
  have Hpos: "0 < H" if "r \<in> set regions" for r
    using all[OF that] not_wellPlaced_zero_height[of W r] by (cases "H = 0") (auto simp: word_neq_0_conv)
  have mono: "wellPlaced ?d' r" if "r \<in> set regions" for r
    using wellPlaced_mono[OF all[OF that], of ?d'] h(2) by simp
  have heighten: "cells r \<subseteq> cells (?f r)" "cells (?f r) \<subseteq> cells r \<union> ?strip" "wellPlaced ?d' (?f r)"
    if "r \<in> set regions" "bottom r = ?edge" for r
  proof -
    have "bottom r = H - 1" using that Hpos[OF that(1)] by simp
    from heighten_region[OF all[OF that(1)] this h]
    show "cells r \<subseteq> cells (?f r)" "cells (?f r) \<subseteq> cells r \<union> ?strip" "wellPlaced ?d' (?f r)"
      by auto
  qed
  show "regionCells (extendHeight H h (W - 1) ?edge regions) = regionCells regions \<union> ?strip"
    and "list_all (wellPlaced ?d') (extendHeight H h (W - 1) ?edge regions)"
  proof (atomize (full), cases "updateFirst ?P ?f regions")
    case None
    let ?g = "\<lambda>r. if bottom r = ?edge then ?f r else r"
    let ?new = "\<lparr>left = 0, top' = H, right = W - 1, bottom = H + h - 1\<rparr>"
    have ext: "extendHeight H h (W - 1) ?edge regions = map ?g regions @ [?new]"
      using None by (simp add: extendHeight_def)
    have g: "cells r \<subseteq> cells (?g r)" "cells (?g r) \<subseteq> cells r \<union> ?strip" "wellPlaced ?d' (?g r)"
      if "r \<in> set regions" for r
      using heighten[OF that] mono[OF that] by auto
    have "regionCells (map ?g regions) \<union> ?strip = regionCells regions \<union> ?strip"
    proof
      show "regionCells (map ?g regions) \<union> ?strip \<subseteq> regionCells regions \<union> ?strip"
        using g(2) by (fastforce simp: regionCells_def)
      show "regionCells regions \<union> ?strip \<subseteq> regionCells (map ?g regions) \<union> ?strip"
        using g(1) by (fastforce simp: regionCells_def)
    qed
    moreover have "list_all (wellPlaced ?d') (map ?g regions)"
      unfolding list_all_iff
    proof
      fix x assume "x \<in> set (map ?g regions)"
      then obtain r where "r \<in> set regions" "x = ?g r" by (auto simp only: set_map image_iff)
      with g(3)[of r] show "wellPlaced ?d' x" by (simp only:)
    qed
    ultimately show "regionCells (extendHeight H h (W - 1) ?edge regions) = regionCells regions \<union> ?strip
        \<and> list_all (wellPlaced ?d') (extendHeight H h (W - 1) ?edge regions)"
      unfolding ext using height_strip_cells[OF W h] by simp
  next
    case (Some regions')
    from updateFirst_Some[OF Some] obtain xs r ys
      where split: "regions = xs @ r # ys" "?P r" "regions' = xs @ ?f r # ys" by blast
    have ext: "extendHeight H h (W - 1) ?edge regions = xs @ ?f r # ys"
      using Some split(3) by (simp add: extendHeight_def)
    have rin: "r \<in> set regions" using split(1) by simp
    have rwp: "wellPlaced \<lparr>width = W, height = H\<rparr> r" by (rule all[OF rin])
    then have "left r \<le> right r" "right r < W"
      by (auto simp: wellPlaced_def IsValid_def insideBin_def)
    from full_span[OF this] split(2) have tb: "left r = 0" "right r = W - 1" by auto
    have edge: "bottom r = H - 1" using split(2) Hpos[OF rin] by simp
    have sub: "?strip \<subseteq> cells (?f r)"
    proof
      fix p assume "p \<in> ?strip"
      then have p: "H \<le> snd p" "snd p < H + h" "fst p < W" by (auto simp: binCells_def)
      have "top' r \<le> bottom r" "bottom r < H" using rwp by (auto simp: wellPlaced_def IsValid_def insideBin_def)
      then have "top' r \<le> snd p" using p(1) by simp
      moreover have e: "bottom r + h = H + h - 1" using edge by simp
      have "snd p \<le> H + h - 1" using p(2) grow_facts(3)[OF h] by simp
      then have "snd p \<le> bottom r + h" by (simp only: e)
      moreover have "fst p \<le> W - 1" using p(3) pred_facts(1)[OF W] by simp
      ultimately show "p \<in> cells (?f r)" by (simp add: cells_def covers_def tb)
    qed
    have "cells (?f r) = cells r \<union> ?strip"
      using heighten(1,2)[OF rin] split(2) sub by auto
    moreover have "list_all (wellPlaced ?d') (xs @ ?f r # ys)"
      using heighten(3)[OF rin] split(2) mono split(1) by (auto simp: list_all_iff)
    ultimately show "regionCells (extendHeight H h (W - 1) ?edge regions) = regionCells regions \<union> ?strip
        \<and> list_all (wellPlaced ?d') (extendHeight H h (W - 1) ?edge regions)"
      unfolding ext by (auto simp: split(1))
  qed
qed

lemma binCells_mono:
  "width d \<le> width d' \<Longrightarrow> height d \<le> height d' \<Longrightarrow> binCells d \<subseteq> binCells d'"
  by (auto simp: binCells_def)

lemma binCells_zero [simp]:
  "binCells \<lparr>width = 0, height = H\<rparr> = {}" "binCells \<lparr>width = W, height = 0\<rparr> = {}"
  by (auto simp: binCells_def)

lemma no_regions_zero_width: "list_all (wellPlaced \<lparr>width = 0, height = H\<rparr>) rs \<Longrightarrow> rs = []"
  by (cases rs) (auto simp: not_wellPlaced_zero_width)

lemma no_regions_zero_height: "list_all (wellPlaced \<lparr>width = W, height = 0\<rparr>) rs \<Longrightarrow> rs = []"
  by (cases rs) (auto simp: not_wellPlaced_zero_height)

lemma ExtendDimensions_unfold:
  "ExtendDimensions b e =
    \<lparr>dimensions = \<lparr>width = width (dimensions b) + width e, height = height (dimensions b) + height e\<rparr>,
     emptyRegions =
       (let regions1 =
          (if 0 < width e \<and> 0 < height (dimensions b)
           then extendWidth (width (dimensions b)) (width e)
                  (if 0 < width (dimensions b) then width (dimensions b) - 1 else 0)
                  (if 0 < height (dimensions b) then height (dimensions b) - 1 else 0) (emptyRegions b)
           else emptyRegions b)
        in if 0 < height e \<and> 0 < width (dimensions b) + width e
           then extendHeight (height (dimensions b)) (height e)
                  ((if 0 < width (dimensions b) then width (dimensions b) - 1 else 0) + width e)
                  (if 0 < height (dimensions b) then height (dimensions b) - 1 else 0) regions1
           else regions1)\<rparr>"
  by (simp add: ExtendDimensions_def Let_def)

lemma ExtendDimensions_spec:
  assumes wp: "list_all (wellPlaced (dimensions b)) (emptyRegions b)" and safe: "growsSafely b e"
  shows "regionCells (emptyRegions (ExtendDimensions b e))
      = regionCells (emptyRegions b)
        \<union> (binCells (dimensions (ExtendDimensions b e)) - binCells (dimensions b))"
    and "list_all (wellPlaced (dimensions (ExtendDimensions b e))) (emptyRegions (ExtendDimensions b e))"
proof -
  define W H w h where "W = width (dimensions b)" and "H = height (dimensions b)"
    and "w = width e" and "h = height e"
  define edge where "edge = (if 0 < W then W - 1 else 0)"
  define floor where "floor = (if 0 < H then H - 1 else 0)"
  define regions1 where "regions1 =
     (if 0 < w \<and> 0 < H then extendWidth W w edge floor (emptyRegions b) else emptyRegions b)"
  define regions2 where "regions2 =
     (if 0 < h \<and> 0 < W + w then extendHeight H h (edge + w) floor regions1 else regions1)"
  have d: "dimensions b = \<lparr>width = W, height = H\<rparr>" by (simp add: W_def H_def)
  have d': "dimensions (ExtendDimensions b e) = \<lparr>width = W + w, height = H + h\<rparr>"
    by (simp add: ExtendDimensions_unfold W_def H_def w_def h_def)
  have r': "emptyRegions (ExtendDimensions b e) = regions2"
    by (simp add: ExtendDimensions_unfold regions2_def regions1_def edge_def floor_def
        W_def H_def w_def h_def Let_def)
  have nw: "W \<le> W + w" and nh: "H \<le> H + h" and slip: "\<not> (W = 0 \<and> 0 < w \<and> 0 < h)"
    using safe by (auto simp: growsSafely_def W_def H_def w_def h_def)
  have wp0: "list_all (wellPlaced \<lparr>width = W, height = H\<rparr>) (emptyRegions b)"
    using wp by (simp add: d)
  let ?mid = "\<lparr>width = W + w, height = H\<rparr>"
  have step1: "regionCells regions1 = regionCells (emptyRegions b) \<union> (binCells ?mid - binCells \<lparr>width = W, height = H\<rparr>)
      \<and> list_all (wellPlaced ?mid) regions1"
  proof (cases "0 < w \<and> 0 < H")
    case True
    then have "floor = H - 1" by (simp add: floor_def)
    with True extendWidth_spec[OF wp0 _ _ nw] show ?thesis
      by (simp add: regions1_def edge_def)
  next
    case False
    then consider "w = 0" | "H = 0" by (auto simp: word_neq_0_conv[symmetric])
    then show ?thesis
    proof cases
      case 1
      with False wp0 show ?thesis by (simp add: regions1_def)
    next
      case 2
      with wp0 have "emptyRegions b = []" by (auto dest: no_regions_zero_height)
      with 2 show ?thesis by (simp add: regions1_def)
    qed
  qed
  let ?new = "\<lparr>width = W + w, height = H + h\<rparr>"
  have step2: "regionCells regions2 = regionCells regions1 \<union> (binCells ?new - binCells ?mid)
      \<and> list_all (wellPlaced ?new) regions2"
  proof (cases "0 < h \<and> 0 < W + w")
    case True
    with slip have "W \<noteq> 0" by (cases "w = 0") (auto simp: word_neq_0_conv)
    then have e: "edge + w = W + w - 1" by (simp add: edge_def word_neq_0_conv)
    have r2: "regions2 = extendHeight H h (W + w - 1) (if 0 < H then H - 1 else 0) regions1"
      unfolding regions2_def floor_def e using True by (simp only: if_True simp_thms)
    from step1 have wp1: "list_all (wellPlaced ?mid) regions1" by simp
    from extendHeight_spec[OF wp1 _ _ nh] True show ?thesis
      unfolding r2 by blast
  next
    case False
    then consider "h = 0" | "W + w = 0" by (auto simp: word_neq_0_conv[symmetric])
    then show ?thesis
    proof cases
      case 1
      with False step1 show ?thesis by (simp add: regions2_def)
    next
      case 2
      with step1 have "regions1 = []" by (auto dest: no_regions_zero_width)
      with 2 show ?thesis by (simp add: regions2_def)
    qed
  qed
  have "binCells \<lparr>width = W, height = H\<rparr> \<subseteq> binCells ?mid" "binCells ?mid \<subseteq> binCells ?new"
    using nw nh by (simp_all add: binCells_mono)
  then have "(binCells ?mid - binCells \<lparr>width = W, height = H\<rparr>) \<union> (binCells ?new - binCells ?mid)
      = binCells ?new - binCells \<lparr>width = W, height = H\<rparr>" by blast
  with step1 step2 show "regionCells (emptyRegions (ExtendDimensions b e))
      = regionCells (emptyRegions b)
        \<union> (binCells (dimensions (ExtendDimensions b e)) - binCells (dimensions b))"
    unfolding r' d d' by (simp add: Un_assoc)
  from step2 show "list_all (wellPlaced (dimensions (ExtendDimensions b e))) (emptyRegions (ExtendDimensions b e))"
    unfolding r' d' by simp
qed

section \<open>Invariants of a run\<close>

lemma binInvariant_newBin: "binInvariant (newBin, [])"
  by (simp add: binInvariant_def newBin_def)

lemma wellPlaced_valid: "list_all (wellPlaced d) rs \<Longrightarrow> list_all IsValid rs"
  by (simp add: list_all_iff wellPlaced_def)

lemma pairwiseDisjoint_snoc:
  "pairwiseDisjoint (ps @ [c]) \<longleftrightarrow> pairwiseDisjoint ps \<and> (\<forall>p \<in> set ps. \<not> overlaps p c)"
  by (induction ps) (auto simp: list_all_iff)

lemma binInvariant_Extend:
  assumes "binInvariant st" "growsSafely (fst st) e"
  shows "binInvariant (doCall st (Extend e))"
proof -
  obtain b placed where st: "st = (b, placed)" by (cases st)
  let ?b' = "ExtendDimensions b e"
  from assms(1) have inv:
    "list_all (wellPlaced (dimensions b)) (emptyRegions b)"
    "list_all (wellPlaced (dimensions b)) placed"
    "pairwiseDisjoint placed"
    "regionCells (emptyRegions b) \<inter> regionCells placed = {}"
    "regionCells (emptyRegions b) \<union> regionCells placed = binCells (dimensions b)"
    by (simp_all add: binInvariant_def st)
  from assms(2) have safe: "growsSafely b e" by (simp add: st)
  note spec = ExtendDimensions_spec[OF inv(1) safe]
  have dims: "width (dimensions b) \<le> width (dimensions ?b')" "height (dimensions b) \<le> height (dimensions ?b')"
    using safe by (simp_all add: growsSafely_def ExtendDimensions_unfold)
  have sub: "binCells (dimensions b) \<subseteq> binCells (dimensions ?b')"
    by (rule binCells_mono[OF dims])
  have placed': "list_all (wellPlaced (dimensions ?b')) placed"
    using inv(2) wellPlaced_mono[OF _ dims] by (simp add: list_all_iff)
  have pl: "regionCells placed \<subseteq> binCells (dimensions b)" using inv(5) by blast
  have "regionCells (emptyRegions ?b') \<inter> regionCells placed = {}"
    using spec(1) inv(4) pl by blast
  moreover have "regionCells (emptyRegions ?b') \<union> regionCells placed = binCells (dimensions ?b')"
    using spec(1) inv(5) sub by blast
  ultimately show ?thesis
    using spec(2) placed' inv(3) by (simp add: binInvariant_def st)
qed

lemma binInvariant_Pack:
  assumes "binInvariant st"
  shows "binInvariant (doCall st (Pack a))"
proof -
  obtain b placed where st: "st = (b, placed)" by (cases st)
  from assms(1) have inv:
    "list_all (wellPlaced (dimensions b)) (emptyRegions b)"
    "list_all (wellPlaced (dimensions b)) placed"
    "pairwiseDisjoint placed"
    "regionCells (emptyRegions b) \<inter> regionCells placed = {}"
    "regionCells (emptyRegions b) \<union> regionCells placed = binCells (dimensions b)"
    by (simp_all add: binInvariant_def st)
  show ?thesis
  proof (cases "IsValid (fst (TryPackArea b a))")
    case False
    from TryPackArea_failure[OF False] assms show ?thesis
      by (simp add: st invalidRect_invalid)
  next
    case True
    let ?best = "snd (findBest (emptyRegions b) a)"
    from TryPackArea_success[OF True]
    have pos: "0 < width a" "0 < height a" and v: "IsValid ?best"
      and res: "TryPackArea b a = (?best, b\<lparr>emptyRegions := applyClip ?best (emptyRegions b)\<rparr>)"
      by simp_all
    have step: "doCall st (Pack a)
        = (b\<lparr>emptyRegions := applyClip ?best (emptyRegions b)\<rparr>, placed @ [?best])"
      using res v by (simp add: st)
    have "?best \<in> set (allCandidates (emptyRegions b) a)"
      by (rule findBest_valid_candidate[OF v])
    from allCandidates_fit[OF wellPlaced_valid[OF inv(1)] pos this]
    obtain r where r: "r \<in> set (emptyRegions b)" "containedIn ?best r" by blast
    have rwp: "wellPlaced (dimensions b) r" using inv(1) r(1) by (simp add: list_all_iff)
    have bwp: "wellPlaced (dimensions b) ?best"
      using rwp r(2) v by (auto simp: wellPlaced_def insideBin_def containedIn_def)
    have inside: "cells ?best \<subseteq> regionCells (emptyRegions b)"
      using containedIn_cells[OF r(2)] r(1) by (auto simp: regionCells_def)
    have apart: "\<not> overlaps p ?best" if "p \<in> set placed" for p
    proof -
      have "cells p \<subseteq> regionCells placed" using that by (auto simp: regionCells_def)
      with inside inv(4) have "cells p \<inter> cells ?best = {}" by blast
      then show ?thesis by (simp add: overlaps_iff_common_cell)
    qed
    have free': "regionCells (applyClip ?best (emptyRegions b)) = regionCells (emptyRegions b) - cells ?best"
      by (rule applyClip_cells)
    have "regionCells (applyClip ?best (emptyRegions b)) \<inter> regionCells (placed @ [?best]) = {}"
      unfolding free' using inv(4) by auto
    moreover have "regionCells (applyClip ?best (emptyRegions b)) \<union> regionCells (placed @ [?best])
        = binCells (dimensions b)"
      unfolding free' using inv(5) inside by auto
    moreover have "pairwiseDisjoint (placed @ [?best])"
      using inv(3) apart by (simp add: pairwiseDisjoint_snoc)
    moreover have "list_all (wellPlaced (dimensions b)) (placed @ [?best])"
      using inv(2) bwp by simp
    moreover have "list_all (wellPlaced (dimensions b)) (applyClip ?best (emptyRegions b))"
      by (rule applyClip_wellPlaced[OF inv(1)])
    ultimately show ?thesis
      unfolding step by (simp add: binInvariant_def)
  qed
qed

lemma binInvariant_calls:
  "binInvariant st \<Longrightarrow> safeCalls st calls \<Longrightarrow> binInvariant (foldl doCall st calls)"
proof (induction calls arbitrary: st)
  case Nil
  then show ?case by simp
next
  case (Cons c calls)
  show ?case
  proof (cases c)
    case (Extend e)
    with Cons.prems have "binInvariant (doCall st c)" "safeCalls (doCall st c) calls"
      by (simp_all add: binInvariant_Extend)
    from Cons.IH[OF this] show ?thesis by simp
  next
    case (Pack a)
    with Cons.prems have "binInvariant (doCall st c)" "safeCalls (doCall st c) calls"
      by (simp_all add: binInvariant_Pack)
    from Cons.IH[OF this] show ?thesis by simp
  qed
qed

lemma nowrap_pos: "(W::u32) \<noteq> 0 \<Longrightarrow> W \<le> W + w \<Longrightarrow> W + w \<noteq> 0"
  by unat_arith

lemma pristine_Extend:
  assumes p: "pristine b" and safe: "growsSafely b e"
  shows "pristine (ExtendDimensions b e)"
proof -
  define W H w h where "W = width (dimensions b)" and "H = height (dimensions b)"
    and "w = width e" and "h = height e"
  have nw: "W \<le> W + w" and nh: "H \<le> H + h" and slip: "\<not> (W = 0 \<and> 0 < w \<and> 0 < h)"
    using safe by (auto simp: growsSafely_def W_def H_def w_def h_def)
  have regions: "emptyRegions b =
      (if W = 0 \<or> H = 0 then [] else [\<lparr>left = 0, top' = 0, right = W - 1, bottom = H - 1\<rparr>])"
    using p by (simp add: pristine_def W_def H_def)
  have goal: "pristine (ExtendDimensions b e) \<longleftrightarrow>
      (let regions1 =
          (if 0 < w \<and> 0 < H
           then extendWidth W w (if 0 < W then W - 1 else 0) (if 0 < H then H - 1 else 0) (emptyRegions b)
           else emptyRegions b)
        in if 0 < h \<and> 0 < W + w
           then extendHeight H h ((if 0 < W then W - 1 else 0) + w) (if 0 < H then H - 1 else 0) regions1
           else regions1)
      = (if W + w = 0 \<or> H + h = 0 then []
         else [\<lparr>left = 0, top' = 0, right = W + w - 1, bottom = H + h - 1\<rparr>])"
    by (simp only: pristine_def ExtendDimensions_unfold W_def H_def w_def h_def
        Bin.select_convs Area.select_convs)
  show ?thesis
  proof (cases "W = 0 \<or> H = 0")
    case True
    then have empty: "emptyRegions b = []" using regions by simp
    show ?thesis
    proof (cases "0 < w \<and> 0 < H")
      case wide: True
      with True have W0: "W = 0" by auto
      with wide slip have h0: "h = 0" by (auto simp: word_neq_0_conv[symmetric])
      from wide W0 h0 show ?thesis
        unfolding goal empty by (simp add: extendWidth_def word_neq_0_conv)
    next
      case narrow: False
      show ?thesis
      proof (cases "0 < h \<and> 0 < W + w")
        case tall: True
        from narrow consider "w = 0" | "H = 0" by (auto simp: word_neq_0_conv[symmetric])
        then show ?thesis
        proof cases
          case 1
          with tall True have "H = 0" "0 < W" by auto
          with 1 tall nh show ?thesis
            unfolding goal empty by (simp add: extendHeight_def word_neq_0_conv)
        next
          case 2
          show ?thesis
          proof (cases "w = 0")
            case True
            with tall have "0 < W" by simp
            with True 2 tall show ?thesis
              unfolding goal empty by (simp add: extendHeight_def word_neq_0_conv)
          next
            case False
            with slip tall have "0 < W" by (auto simp: word_neq_0_conv[symmetric])
            with 2 tall show ?thesis
              unfolding goal empty by (simp add: extendHeight_def word_neq_0_conv)
          qed
        qed
      next
        case short: False
        with narrow True show ?thesis
          unfolding goal empty by (auto simp: word_neq_0_conv[symmetric])
      qed
    qed
  next
    case False
    then have pos: "W \<noteq> 0" "H \<noteq> 0" by auto
    then have pos': "0 < W" "0 < H" by (simp_all add: word_neq_0_conv)
    have full: "emptyRegions b = [\<lparr>left = 0, top' = 0, right = W - 1, bottom = H - 1\<rparr>]"
      using regions False by simp
    have W': "W + w \<noteq> 0" "0 < W + w" using nowrap_pos[OF pos(1) nw] by (simp_all add: word_neq_0_conv)
    have H': "H + h \<noteq> 0" using nowrap_pos[OF pos(2) nh] .
    show ?thesis
      unfolding goal full using pos pos' W' H'
      by (cases "w = 0"; cases "h = 0")
         (simp_all add: extendWidth_def extendHeight_def word_neq_0_conv)
  qed
qed

lemma pristine_newBin: "pristine newBin"
  by (simp add: pristine_def newBin_def)

lemma pristine_disjoint: "pristine b \<Longrightarrow> pairwiseDisjoint (emptyRegions b)"
  by (simp add: pristine_def)

lemma placed_grows: "length (snd st) \<le> length (snd (doCall st c))"
  by (cases st; cases c) (auto simp: Let_def case_prod_unfold)

lemma placed_grows_calls: "length (snd st) \<le> length (snd (foldl doCall st calls))"
proof (induction calls arbitrary: st)
  case Nil
  then show ?case by simp
next
  case (Cons c calls)
  from placed_grows[of st c] Cons.IH[of "doCall st c"] show ?case by simp
qed

lemma pristine_calls:
  "pristine (fst st) \<Longrightarrow> safeCalls st calls \<Longrightarrow> snd (foldl doCall st calls) = []
   \<Longrightarrow> pristine (fst (foldl doCall st calls))"
proof (induction calls arbitrary: st)
  case Nil
  then show ?case by simp
next
  case (Cons c calls)
  obtain b placed where st: "st = (b, placed)" by (cases st)
  have none: "snd (doCall st c) = []"
    using placed_grows_calls[of "doCall st c" calls] Cons.prems(3) by simp
  have "pristine (fst (doCall st c)) \<and> safeCalls (doCall st c) calls"
  proof (cases c)
    case (Extend e)
    with Cons.prems show ?thesis by (simp add: st pristine_Extend)
  next
    case (Pack a)
    have "\<not> IsValid (fst (TryPackArea b a))"
      using none Pack by (auto simp: st Let_def case_prod_unfold split: if_splits)
    from TryPackArea_failure[OF this] Cons.prems Pack show ?thesis
      by (simp add: st)
  qed
  with Cons.IH[of "doCall st c"] Cons.prems(3) show ?case by simp
qed

lemma card_regionCells_disjoint:
  "list_all IsValid ps \<Longrightarrow> pairwiseDisjoint ps \<Longrightarrow> card (regionCells ps) = sum_list (map areaOf ps)"
proof (induction ps)
  case Nil
  then show ?case by simp
next
  case (Cons p ps)
  then have v: "IsValid p" and rest: "list_all IsValid ps" "pairwiseDisjoint ps"
    and apart: "\<forall>q \<in> set ps. \<not> overlaps p q"
    by (simp_all add: list_all_iff)
  have "cells p \<inter> regionCells ps = {}"
    using apart by (auto simp: regionCells_def overlaps_iff_common_cell)
  then have "card (cells p \<union> regionCells ps) = card (cells p) + card (regionCells ps)"
    by (intro card_Un_disjoint) simp_all
  with Cons.IH[OF rest] card_cells[OF v] show ?case by simp
qed

lemma card_lessThan_word: "card {..<W::u32} = unat W"
proof (cases "W = 0")
  case True
  have "{..<(0::u32)} = {}" by (simp add: lessThan_def)
  then have "card {..<(0::u32)} = 0" by (simp only: card.empty)
  with True show ?thesis by simp
next
  case False
  then have W: "0 < W" by (simp add: word_neq_0_conv)
  have "{..<W} = {0..W - 1}"
  proof (rule set_eqI)
    fix x show "x \<in> {..<W} \<longleftrightarrow> x \<in> {0..W - 1}"
      by (simp add: pred_facts(1)[OF W])
  qed
  then have "card {..<W} = unat (W - 1) + 1 - unat (0::u32)" by (simp only: card_word_interval)
  also have "\<dots> = unat W" using False by (simp add: unat_minus_one unat_gt_0)
  finally show ?thesis .
qed

lemma card_binCells: "card (binCells d) = unat (width d) * unat (height d)"
proof -
  have "binCells d = {..<width d} \<times> {..<height d}" by (auto simp: binCells_def)
  then show ?thesis by (simp add: card_cartesian_product card_lessThan_word)
qed

text \<open>
  C2, as amended. For every run from a fresh Bin whose \<open>ExtendDimensions\<close> calls grow
  safely, the number of cells covered by the free regions (a cell in two overlapping
  regions counted once) plus the sum of the areas of the valid Rects returned so far
  equals \<open>dimensions.width * dimensions.height\<close>; and whenever the free regions are
  pairwise disjoint, so does the sum of their areas.
\<close>

theorem free_cells_plus_placed_areas:
  assumes "safeCalls (newBin, []) calls"
  shows "card (regionCells (GetEmptyRegions (fst (runCalls calls))))
        + sum_list (map areaOf (snd (runCalls calls)))
      = unat (width (GetDimensions (fst (runCalls calls))))
        * unat (height (GetDimensions (fst (runCalls calls))))
    \<and> (pairwiseDisjoint (GetEmptyRegions (fst (runCalls calls))) \<longrightarrow>
        sum_list (map areaOf (GetEmptyRegions (fst (runCalls calls))))
        + sum_list (map areaOf (snd (runCalls calls)))
      = unat (width (GetDimensions (fst (runCalls calls))))
        * unat (height (GetDimensions (fst (runCalls calls)))))"
proof (rule conjI)
  let ?b = "fst (runCalls calls)" and ?placed = "snd (runCalls calls)"
  have "binInvariant (runCalls calls)"
    unfolding runCalls_def by (rule binInvariant_calls[OF binInvariant_newBin assms])
  then have inv:
    "list_all (wellPlaced (dimensions ?b)) (emptyRegions ?b)"
    "list_all (wellPlaced (dimensions ?b)) ?placed"
    "pairwiseDisjoint ?placed"
    "regionCells (emptyRegions ?b) \<inter> regionCells ?placed = {}"
    "regionCells (emptyRegions ?b) \<union> regionCells ?placed = binCells (dimensions ?b)"
    by (simp_all add: binInvariant_def)
  have "card (regionCells (emptyRegions ?b) \<union> regionCells ?placed)
      = card (regionCells (emptyRegions ?b)) + card (regionCells ?placed)"
    using inv(4) by (intro card_Un_disjoint) simp_all
  moreover have "card (regionCells ?placed) = sum_list (map areaOf ?placed)"
    by (rule card_regionCells_disjoint[OF wellPlaced_valid[OF inv(2)] inv(3)])
  ultimately have total: "card (regionCells (emptyRegions ?b)) + sum_list (map areaOf ?placed)
      = unat (width (dimensions ?b)) * unat (height (dimensions ?b))"
    using inv(5) card_binCells[of "dimensions ?b"] by simp
  then show "card (regionCells (GetEmptyRegions ?b)) + sum_list (map areaOf ?placed)
    = unat (width (GetDimensions ?b)) * unat (height (GetDimensions ?b))"
    by (simp add: GetEmptyRegions_def GetDimensions_def)
  show "pairwiseDisjoint (GetEmptyRegions ?b) \<longrightarrow>
      sum_list (map areaOf (GetEmptyRegions ?b)) + sum_list (map areaOf ?placed)
    = unat (width (GetDimensions ?b)) * unat (height (GetDimensions ?b))"
  proof
    assume "pairwiseDisjoint (GetEmptyRegions ?b)"
    then have "pairwiseDisjoint (emptyRegions ?b)" by (simp add: GetEmptyRegions_def)
    from card_regionCells_disjoint[OF wellPlaced_valid[OF inv(1)] this] total
    show "sum_list (map areaOf (GetEmptyRegions ?b)) + sum_list (map areaOf ?placed)
        = unat (width (GetDimensions ?b)) * unat (height (GetDimensions ?b))"
      by (simp add: GetEmptyRegions_def GetDimensions_def)
  qed
qed

theorem free_cells_plus_placed_areas_witness:
  "safeCalls (newBin, [])
     [Extend \<lparr>width = 10, height = 0\<rparr>, Extend \<lparr>width = 0, height = 10\<rparr>,
      Pack \<lparr>width = 4, height = 4\<rparr>]
   \<and> card (regionCells (GetEmptyRegions (fst (runCalls
       [Extend \<lparr>width = 10, height = 0\<rparr>, Extend \<lparr>width = 0, height = 10\<rparr>,
        Pack \<lparr>width = 4, height = 4\<rparr>])))) + 16 = 100
   \<and> safeCalls (newBin, [])
     [Extend \<lparr>width = 10, height = 0\<rparr>, Extend \<lparr>width = 0, height = 10\<rparr>,
      Pack \<lparr>width = 10, height = 5\<rparr>]
   \<and> pairwiseDisjoint (GetEmptyRegions (fst (runCalls
       [Extend \<lparr>width = 10, height = 0\<rparr>, Extend \<lparr>width = 0, height = 10\<rparr>,
        Pack \<lparr>width = 10, height = 5\<rparr>])))
   \<and> sum_list (map areaOf (GetEmptyRegions (fst (runCalls
       [Extend \<lparr>width = 10, height = 0\<rparr>, Extend \<lparr>width = 0, height = 10\<rparr>,
        Pack \<lparr>width = 10, height = 5\<rparr>]))))
     + sum_list (map areaOf (snd (runCalls
       [Extend \<lparr>width = 10, height = 0\<rparr>, Extend \<lparr>width = 0, height = 10\<rparr>,
        Pack \<lparr>width = 10, height = 5\<rparr>])))
     = unat (width (GetDimensions (fst (runCalls
       [Extend \<lparr>width = 10, height = 0\<rparr>, Extend \<lparr>width = 0, height = 10\<rparr>,
        Pack \<lparr>width = 10, height = 5\<rparr>]))))
       * unat (height (GetDimensions (fst (runCalls
       [Extend \<lparr>width = 10, height = 0\<rparr>, Extend \<lparr>width = 0, height = 10\<rparr>,
        Pack \<lparr>width = 10, height = 5\<rparr>]))))"
proof -
  let ?calls1 = "[Extend \<lparr>width = 10, height = 0\<rparr>, Extend \<lparr>width = 0, height = 10\<rparr>,
      Pack \<lparr>width = 4, height = 4\<rparr>]"
  let ?calls2 = "[Extend \<lparr>width = 10, height = 0\<rparr>, Extend \<lparr>width = 0, height = 10\<rparr>,
      Pack \<lparr>width = 10, height = 5\<rparr>]"
  have safe1: "safeCalls (newBin, []) ?calls1" by code_simp
  have safe2: "safeCalls (newBin, []) ?calls2" by code_simp
  have placed1: "sum_list (map areaOf (snd (runCalls ?calls1))) = 16" by code_simp
  have dims1: "unat (width (GetDimensions (fst (runCalls ?calls1))))
      * unat (height (GetDimensions (fst (runCalls ?calls1)))) = 100" by code_simp
  have disjoint2: "pairwiseDisjoint (GetEmptyRegions (fst (runCalls ?calls2)))" by code_simp
  from free_cells_plus_placed_areas[OF safe1] placed1 dims1
  have "card (regionCells (GetEmptyRegions (fst (runCalls ?calls1)))) + 16 = 100"
    by simp
  moreover from free_cells_plus_placed_areas[OF safe2] disjoint2
  have "sum_list (map areaOf (GetEmptyRegions (fst (runCalls ?calls2))))
     + sum_list (map areaOf (snd (runCalls ?calls2)))
     = unat (width (GetDimensions (fst (runCalls ?calls2))))
       * unat (height (GetDimensions (fst (runCalls ?calls2))))"
    by blast
  ultimately show ?thesis using safe1 safe2 disjoint2 by blast
qed

text \<open>
  C1, as amended. For every run from a fresh Bin whose \<open>ExtendDimensions\<close> calls grow
  safely and in which no \<open>TryPackArea\<close> call has succeeded yet, the free regions are
  pairwise disjoint: there is none while a dimension is 0, and otherwise exactly one,
  covering the whole bin.
\<close>

theorem free_regions_disjoint_before_first_placement:
  assumes "safeCalls (newBin, []) calls" "snd (runCalls calls) = []"
  shows "pairwiseDisjoint (GetEmptyRegions (fst (runCalls calls)))
    \<and> pristine (fst (runCalls calls))"
proof (rule conjI)
  show p: "pristine (fst (runCalls calls))"
    using pristine_calls[of "(newBin, [])" calls] assms pristine_newBin
    by (simp add: runCalls_def)
  then show "pairwiseDisjoint (GetEmptyRegions (fst (runCalls calls)))"
    by (simp add: GetEmptyRegions_def pristine_disjoint)
qed

theorem free_regions_disjoint_before_first_placement_witness:
  "safeCalls (newBin, [])
     [Extend \<lparr>width = 10, height = 0\<rparr>, Extend \<lparr>width = 0, height = 10\<rparr>,
      Pack \<lparr>width = 11, height = 1\<rparr>, Extend \<lparr>width = 5, height = 5\<rparr>]
   \<and> snd (runCalls
     [Extend \<lparr>width = 10, height = 0\<rparr>, Extend \<lparr>width = 0, height = 10\<rparr>,
      Pack \<lparr>width = 11, height = 1\<rparr>, Extend \<lparr>width = 5, height = 5\<rparr>]) = []
   \<and> pairwiseDisjoint (GetEmptyRegions (fst (runCalls
     [Extend \<lparr>width = 10, height = 0\<rparr>, Extend \<lparr>width = 0, height = 10\<rparr>,
      Pack \<lparr>width = 11, height = 1\<rparr>, Extend \<lparr>width = 5, height = 5\<rparr>])))
   \<and> pristine (fst (runCalls
     [Extend \<lparr>width = 10, height = 0\<rparr>, Extend \<lparr>width = 0, height = 10\<rparr>,
      Pack \<lparr>width = 11, height = 1\<rparr>, Extend \<lparr>width = 5, height = 5\<rparr>]))"
proof -
  let ?calls = "[Extend \<lparr>width = 10, height = 0\<rparr>, Extend \<lparr>width = 0, height = 10\<rparr>,
      Pack \<lparr>width = 11, height = 1\<rparr>, Extend \<lparr>width = 5, height = 5\<rparr>]"
  have safe: "safeCalls (newBin, []) ?calls" by code_simp
  have none: "snd (runCalls ?calls) = []" by code_simp
  from free_regions_disjoint_before_first_placement[OF safe none] safe none
  show ?thesis by blast
qed

text \<open>
  C4, as amended. For every run from a fresh Bin whose \<open>ExtendDimensions\<close> calls grow
  safely, every free region is a valid Rect inside the bin's bounding rectangle:
  \<open>left \<le> right < dimensions.width\<close> and \<open>top \<le> bottom < dimensions.height\<close>.
\<close>

theorem free_regions_inside_bin:
  assumes "safeCalls (newBin, []) calls"
  shows "list_all (wellPlaced (GetDimensions (fst (runCalls calls))))
           (GetEmptyRegions (fst (runCalls calls)))"
proof -
  have "binInvariant (runCalls calls)"
    unfolding runCalls_def by (rule binInvariant_calls[OF binInvariant_newBin assms])
  then show ?thesis
    by (simp add: binInvariant_def GetEmptyRegions_def GetDimensions_def)
qed

theorem free_regions_inside_bin_witness:
  "safeCalls (newBin, [])
     [Extend \<lparr>width = 10, height = 0\<rparr>, Extend \<lparr>width = 0, height = 10\<rparr>,
      Pack \<lparr>width = 4, height = 4\<rparr>, Extend \<lparr>width = 5, height = 5\<rparr>, Pack \<lparr>width = 7, height = 3\<rparr>]
   \<and> list_all (wellPlaced (GetDimensions (fst (runCalls
     [Extend \<lparr>width = 10, height = 0\<rparr>, Extend \<lparr>width = 0, height = 10\<rparr>,
      Pack \<lparr>width = 4, height = 4\<rparr>, Extend \<lparr>width = 5, height = 5\<rparr>, Pack \<lparr>width = 7, height = 3\<rparr>]))))
      (GetEmptyRegions (fst (runCalls
     [Extend \<lparr>width = 10, height = 0\<rparr>, Extend \<lparr>width = 0, height = 10\<rparr>,
      Pack \<lparr>width = 4, height = 4\<rparr>, Extend \<lparr>width = 5, height = 5\<rparr>, Pack \<lparr>width = 7, height = 3\<rparr>])))"
proof -
  let ?calls = "[Extend \<lparr>width = 10, height = 0\<rparr>, Extend \<lparr>width = 0, height = 10\<rparr>,
      Pack \<lparr>width = 4, height = 4\<rparr>, Extend \<lparr>width = 5, height = 5\<rparr>, Pack \<lparr>width = 7, height = 3\<rparr>]"
  have safe: "safeCalls (newBin, []) ?calls" by code_simp
  from free_regions_inside_bin[OF safe] safe show ?thesis by blast
qed

text \<open>
  Along every run whose \<open>ExtendDimensions\<close> calls grow safely, every Rect returned by
  a successful \<open>TryPackArea\<close> is valid and inside the bin, the returned Rects are
  pairwise disjoint, and no free region overlaps a returned Rect.
\<close>

theorem placements_stay_apart:
  assumes "safeCalls (newBin, []) calls"
  shows "list_all (wellPlaced (GetDimensions (fst (runCalls calls)))) (snd (runCalls calls))
    \<and> pairwiseDisjoint (snd (runCalls calls))
    \<and> list_all (\<lambda>r. list_all (\<lambda>p. \<not> overlaps r p) (snd (runCalls calls)))
          (GetEmptyRegions (fst (runCalls calls)))"
proof -
  let ?b = "fst (runCalls calls)" and ?placed = "snd (runCalls calls)"
  have "binInvariant (runCalls calls)"
    unfolding runCalls_def by (rule binInvariant_calls[OF binInvariant_newBin assms])
  then have inv:
    "list_all (wellPlaced (dimensions ?b)) ?placed"
    "pairwiseDisjoint ?placed"
    "regionCells (emptyRegions ?b) \<inter> regionCells ?placed = {}"
    by (simp_all add: binInvariant_def)
  have "\<not> overlaps r p" if "r \<in> set (emptyRegions ?b)" "p \<in> set ?placed" for r p
  proof -
    have "cells r \<subseteq> regionCells (emptyRegions ?b)" "cells p \<subseteq> regionCells ?placed"
      using that by (auto simp: regionCells_def)
    with inv(3) have "cells r \<inter> cells p = {}" by blast
    then show ?thesis by (simp add: overlaps_iff_common_cell)
  qed
  then have "list_all (\<lambda>r. list_all (\<lambda>p. \<not> overlaps r p) ?placed) (emptyRegions ?b)"
    by (simp add: list_all_iff)
  with inv(1,2) show ?thesis by (simp add: GetEmptyRegions_def GetDimensions_def)
qed

theorem placements_stay_apart_witness:
  "safeCalls (newBin, [])
     [Extend \<lparr>width = 10, height = 0\<rparr>, Extend \<lparr>width = 0, height = 10\<rparr>,
      Pack \<lparr>width = 4, height = 4\<rparr>, Extend \<lparr>width = 5, height = 5\<rparr>, Pack \<lparr>width = 7, height = 3\<rparr>]
   \<and> list_all (wellPlaced (GetDimensions (fst (runCalls
     [Extend \<lparr>width = 10, height = 0\<rparr>, Extend \<lparr>width = 0, height = 10\<rparr>,
      Pack \<lparr>width = 4, height = 4\<rparr>, Extend \<lparr>width = 5, height = 5\<rparr>, Pack \<lparr>width = 7, height = 3\<rparr>]))))
      (snd (runCalls
     [Extend \<lparr>width = 10, height = 0\<rparr>, Extend \<lparr>width = 0, height = 10\<rparr>,
      Pack \<lparr>width = 4, height = 4\<rparr>, Extend \<lparr>width = 5, height = 5\<rparr>, Pack \<lparr>width = 7, height = 3\<rparr>]))
   \<and> pairwiseDisjoint (snd (runCalls
     [Extend \<lparr>width = 10, height = 0\<rparr>, Extend \<lparr>width = 0, height = 10\<rparr>,
      Pack \<lparr>width = 4, height = 4\<rparr>, Extend \<lparr>width = 5, height = 5\<rparr>, Pack \<lparr>width = 7, height = 3\<rparr>]))
   \<and> list_all (\<lambda>r. list_all (\<lambda>p. \<not> overlaps r p) (snd (runCalls
     [Extend \<lparr>width = 10, height = 0\<rparr>, Extend \<lparr>width = 0, height = 10\<rparr>,
      Pack \<lparr>width = 4, height = 4\<rparr>, Extend \<lparr>width = 5, height = 5\<rparr>, Pack \<lparr>width = 7, height = 3\<rparr>])))
      (GetEmptyRegions (fst (runCalls
     [Extend \<lparr>width = 10, height = 0\<rparr>, Extend \<lparr>width = 0, height = 10\<rparr>,
      Pack \<lparr>width = 4, height = 4\<rparr>, Extend \<lparr>width = 5, height = 5\<rparr>, Pack \<lparr>width = 7, height = 3\<rparr>])))"
proof -
  let ?calls = "[Extend \<lparr>width = 10, height = 0\<rparr>, Extend \<lparr>width = 0, height = 10\<rparr>,
      Pack \<lparr>width = 4, height = 4\<rparr>, Extend \<lparr>width = 5, height = 5\<rparr>, Pack \<lparr>width = 7, height = 3\<rparr>]"
  have safe: "safeCalls (newBin, []) ?calls" by code_simp
  from placements_stay_apart[OF safe] safe show ?thesis by blast
qed

section \<open>Concrete runs\<close>

text \<open>
  A 10 by 10 bin after \<open>TryPackArea({4,4})\<close>: the free regions are \<open>{4,0,9,9}\<close> and
  \<open>{0,4,9,9}\<close>, which overlap.
\<close>

theorem free_regions_overlap_counterexample:
  "\<not> pairwiseDisjoint (GetEmptyRegions (fst (runCalls
     [Extend \<lparr>width = 10, height = 0\<rparr>, Extend \<lparr>width = 0, height = 10\<rparr>,
      Pack \<lparr>width = 4, height = 4\<rparr>])))"
  by code_simp

text \<open>In the same run the areas add up to 60 + 60 + 16 = 136, not 100.\<close>

theorem area_sum_counterexample:
  "sum_list (map areaOf (GetEmptyRegions (fst (runCalls
       [Extend \<lparr>width = 10, height = 0\<rparr>, Extend \<lparr>width = 0, height = 10\<rparr>,
        Pack \<lparr>width = 4, height = 4\<rparr>]))))
   + sum_list (map areaOf (snd (runCalls
       [Extend \<lparr>width = 10, height = 0\<rparr>, Extend \<lparr>width = 0, height = 10\<rparr>,
        Pack \<lparr>width = 4, height = 4\<rparr>])))
   \<noteq> unat (width (GetDimensions (fst (runCalls
       [Extend \<lparr>width = 10, height = 0\<rparr>, Extend \<lparr>width = 0, height = 10\<rparr>,
        Pack \<lparr>width = 4, height = 4\<rparr>]))))
     * unat (height (GetDimensions (fst (runCalls
       [Extend \<lparr>width = 10, height = 0\<rparr>, Extend \<lparr>width = 0, height = 10\<rparr>,
        Pack \<lparr>width = 4, height = 4\<rparr>]))))"
  by code_simp

text \<open>
  A 5 by 1 bin whose free region is 5 wide and 1 tall: \<open>TryPackArea({1,5})\<close> fails at
  the guard on \<open>area.height\<close>, although the rotated area fits the bin and the region.
\<close>

theorem rotation_blocked_by_guard_counterexample:
  "(0::u32) < 1 \<and> (0::u32) < 5
   \<and> width (rotated \<lparr>width = 1, height = 5\<rparr>)
       \<le> width (GetDimensions (fst (runCalls [Extend \<lparr>width = 5, height = 0\<rparr>, Extend \<lparr>width = 0, height = 1\<rparr>])))
   \<and> height (rotated \<lparr>width = 1, height = 5\<rparr>)
       \<le> height (GetDimensions (fst (runCalls [Extend \<lparr>width = 5, height = 0\<rparr>, Extend \<lparr>width = 0, height = 1\<rparr>])))
   \<and> GetEmptyRegions (fst (runCalls [Extend \<lparr>width = 5, height = 0\<rparr>, Extend \<lparr>width = 0, height = 1\<rparr>]))
       = [\<lparr>left = 0, top' = 0, right = 4, bottom = 0\<rparr>]
   \<and> fits \<lparr>left = 0, top' = 0, right = 4, bottom = 0\<rparr> (rotated \<lparr>width = 1, height = 5\<rparr>)
   \<and> \<not> IsValid (fst (TryPackArea
        (fst (runCalls [Extend \<lparr>width = 5, height = 0\<rparr>, Extend \<lparr>width = 0, height = 1\<rparr>]))
        \<lparr>width = 1, height = 5\<rparr>))"
  by code_simp
text \<open>
  A width that wraps around: a 5 by 5 bin with the top row packed, then
  \<open>ExtendDimensions({4294967295, 0})\<close>. The width becomes 4, the region \<open>{0,1,4,4}\<close>
  becomes \<open>{0,1,3,4}\<close>, and the new region is \<open>{5,0,3,4}\<close>, with \<open>left > right\<close>. It
  passes the fit test for \<open>{1,1}\<close> by wrap-around, its north-west clip \<open>{5,0,5,0}\<close>
  scores 0 and is returned; no region intersects it, so the Bin stays as it was.
\<close>

theorem success_without_change_counterexample:
  "IsValid (fst (TryPackArea
      (fst (runCalls [Extend \<lparr>width = 5, height = 0\<rparr>, Extend \<lparr>width = 0, height = 5\<rparr>,
         Pack \<lparr>width = 5, height = 1\<rparr>, Extend \<lparr>width = 4294967295, height = 0\<rparr>]))
      \<lparr>width = 1, height = 1\<rparr>))
   \<and> snd (TryPackArea
      (fst (runCalls [Extend \<lparr>width = 5, height = 0\<rparr>, Extend \<lparr>width = 0, height = 5\<rparr>,
         Pack \<lparr>width = 5, height = 1\<rparr>, Extend \<lparr>width = 4294967295, height = 0\<rparr>]))
      \<lparr>width = 1, height = 1\<rparr>)
     = fst (runCalls [Extend \<lparr>width = 5, height = 0\<rparr>, Extend \<lparr>width = 0, height = 5\<rparr>,
         Pack \<lparr>width = 5, height = 1\<rparr>, Extend \<lparr>width = 4294967295, height = 0\<rparr>])"
  by code_simp


text \<open>In the same call the returned Rect \<open>{5,0,5,0}\<close> lies inside neither free region.\<close>

theorem result_outside_every_region_counterexample:
  "IsValid (fst (TryPackArea
      (fst (runCalls [Extend \<lparr>width = 5, height = 0\<rparr>, Extend \<lparr>width = 0, height = 5\<rparr>,
         Pack \<lparr>width = 5, height = 1\<rparr>, Extend \<lparr>width = 4294967295, height = 0\<rparr>]))
      \<lparr>width = 1, height = 1\<rparr>))
   \<and> \<not> list_ex (containedIn (fst (TryPackArea
      (fst (runCalls [Extend \<lparr>width = 5, height = 0\<rparr>, Extend \<lparr>width = 0, height = 5\<rparr>,
         Pack \<lparr>width = 5, height = 1\<rparr>, Extend \<lparr>width = 4294967295, height = 0\<rparr>]))
      \<lparr>width = 1, height = 1\<rparr>)))
     (GetEmptyRegions
      (fst (runCalls [Extend \<lparr>width = 5, height = 0\<rparr>, Extend \<lparr>width = 0, height = 5\<rparr>,
         Pack \<lparr>width = 5, height = 1\<rparr>, Extend \<lparr>width = 4294967295, height = 0\<rparr>])))"
  by code_simp


text \<open>
  A width that wraps around to 0: a 5 by 5 bin grown by \<open>{4294967291, 0}\<close> has the
  dimensions \<open>{0, 5}\<close> and the free region \<open>{0, 0, 4294967295, 4}\<close>.
\<close>

theorem region_outside_bin_counterexample:
  "\<not> list_all (insideBin (GetDimensions (fst (runCalls
       [Extend \<lparr>width = 5, height = 0\<rparr>, Extend \<lparr>width = 0, height = 5\<rparr>,
        Extend \<lparr>width = 4294967291, height = 0\<rparr>]))))
     (GetEmptyRegions (fst (runCalls
       [Extend \<lparr>width = 5, height = 0\<rparr>, Extend \<lparr>width = 0, height = 5\<rparr>,
        Extend \<lparr>width = 4294967291, height = 0\<rparr>])))"
  by code_simp


end
